theory Spec2Isabelle
  imports Main "HOL-Library.Sublist"
begin

section \<open>Values of the crawler\<close>

text \<open>
  The crawler works on what \<^verbatim>\<open>resp.json()\<close> returns: Python values built from
  \<^verbatim>\<open>None\<close>, booleans, integers, strings, lists and dictionaries. A dictionary is an
  association list in which the first binding of a key is the one that counts, and whose
  keys are enumerated in the order of their first occurrence. A Python string is a list of
  characters, one \<^typ>\<open>char\<close> for each code point below 256. Numbers with a fractional part
  are outside the model.
\<close>

datatype json =
    JNull
  | JBool bool
  | JNum int
  | JStr string
  | JArr "json list"
  | JObj "(string \<times> json) list"

text \<open>The exceptions that the modelled functions can raise.\<close>

datatype error =
    TransportError
  | HTTPError
  | JSONDecodeError
  | RuntimeError json
  | AttributeError
  | KeyError string
  | TypeError
  | EOFError
  | SystemExit string
  | OSError
  | ValueError

subsection \<open>Python's operations on these values\<close>

text \<open>\<^verbatim>\<open>bool(v)\<close>: the truth value that \<^verbatim>\<open>not\<close>, \<^verbatim>\<open>or\<close> and \<^verbatim>\<open>if\<close> test.\<close>

fun truthy :: "json \<Rightarrow> bool" where
  "truthy JNull = False"
| "truthy (JBool b) = b"
| "truthy (JNum n) = (n \<noteq> 0)"
| "truthy (JStr s) = (s \<noteq> [])"
| "truthy (JArr xs) = (xs \<noteq> [])"
| "truthy (JObj kvs) = (kvs \<noteq> [])"

text \<open>\<^verbatim>\<open>a or b\<close>.\<close>

definition py_or :: "json \<Rightarrow> json \<Rightarrow> json" where
  "py_or a b = (if truthy a then a else b)"

text \<open>The keys of a dictionary, each once, in the order of first occurrence.\<close>

fun dict_keys :: "(string \<times> json) list \<Rightarrow> string list" where
  "dict_keys [] = []"
| "dict_keys ((k, v) # kvs) = k # filter (\<lambda>k'. k' \<noteq> k) (dict_keys kvs)"

text \<open>\<^verbatim>\<open>d.get(k, default)\<close>: only a dictionary has the method.\<close>

fun py_get :: "json \<Rightarrow> string \<Rightarrow> json \<Rightarrow> error + json" where
  "py_get (JObj kvs) k d = Inr (case map_of kvs k of None \<Rightarrow> d | Some v \<Rightarrow> v)"
| "py_get _ k d = Inl AttributeError"

text \<open>
  \<^verbatim>\<open>d[k]\<close> for a string \<^verbatim>\<open>k\<close>: a dictionary without the key raises KeyError; a list
  or a string wants an integer index, and the other values cannot be subscripted.
\<close>

fun py_item :: "json \<Rightarrow> string \<Rightarrow> error + json" where
  "py_item (JObj kvs) k = (case map_of kvs k of None \<Rightarrow> Inl (KeyError k) | Some v \<Rightarrow> Inr v)"
| "py_item _ k = Inl TypeError"

text \<open>
  The elements that iterating over a value yields: those of a list, the characters of a
  string (each a string of length one), the keys of a dictionary. Nothing else is iterable.
\<close>

fun py_iter :: "json \<Rightarrow> error + json list" where
  "py_iter (JArr xs) = Inr xs"
| "py_iter (JStr s) = Inr (map (\<lambda>c. JStr [c]) s)"
| "py_iter (JObj kvs) = Inr (map JStr (dict_keys kvs))"
| "py_iter _ = Inl TypeError"

text \<open>The integer that a value is in a comparison: a boolean is the integer 1 or 0.\<close>

fun int_value :: "json \<Rightarrow> int option" where
  "int_value (JNum m) = Some m"
| "int_value (JBool b) = Some (if b then 1 else 0)"
| "int_value _ = None"

text \<open>\<^verbatim>\<open>n >= v\<close> for an integer \<^verbatim>\<open>n\<close>: defined against integers and booleans only.\<close>

definition py_ge :: "int \<Rightarrow> json \<Rightarrow> error + bool" where
  "py_ge n v = (case int_value v of None \<Rightarrow> Inl TypeError | Some m \<Rightarrow> Inr (n \<ge> m))"

subsection \<open>Strings\<close>

text \<open>The code points below 256 that \<^verbatim>\<open>str.strip()\<close> treats as whitespace.\<close>

definition is_space :: "char \<Rightarrow> bool" where
  "is_space c = ((of_char c :: nat) \<in> {9, 10, 11, 12, 13, 28, 29, 30, 31, 32, 133, 160})"

text \<open>\<^verbatim>\<open>s.strip()\<close>.\<close>

definition py_strip :: "string \<Rightarrow> string" where
  "py_strip s = rev (dropWhile is_space (rev (dropWhile is_space s)))"

text \<open>
  \<^verbatim>\<open>s.replace(old, new)\<close>: the occurrences of \<^verbatim>\<open>old\<close> are found from left to right
  and do not overlap; the search resumes after each one. An empty \<^verbatim>\<open>old\<close> matches before
  every character and at the end.
\<close>

function py_replace :: "string \<Rightarrow> string \<Rightarrow> string \<Rightarrow> string" where
  "py_replace old new [] = (if old = [] then new else [])"
| "py_replace old new (c # cs) =
     (if old = [] then new @ c # py_replace old new cs
      else if prefix old (c # cs) then new @ py_replace old new (drop (length old) (c # cs))
      else c # py_replace old new cs)"
  by pat_completeness auto
termination
  by (relation "measure (\<lambda>(old, new, s). length s)") auto

text \<open>\<^verbatim>\<open>sep.join(items)\<close> for items that are already known to be strings.\<close>

fun join :: "string \<Rightarrow> string list \<Rightarrow> string" where
  "join sep [] = []"
| "join sep [x] = x"
| "join sep (x # y # ys) = x @ sep @ join sep (y # ys)"

text \<open>Whether a value is a string, and the string inside it.\<close>

fun is_str :: "json \<Rightarrow> bool" where
  "is_str (JStr s) = True"
| "is_str _ = False"

fun str_of :: "json \<Rightarrow> string" where
  "str_of (JStr s) = s"
| "str_of _ = []"

text \<open>\<^verbatim>\<open>sep.join(items)\<close>: an item that is not a string raises TypeError.\<close>

definition py_join :: "string \<Rightarrow> json list \<Rightarrow> error + string" where
  "py_join sep items =
     (if list_all is_str items then Inr (join sep (map str_of items)) else Inl TypeError)"

section \<open>The flattener\<close>

text \<open>\<^verbatim>\<open>strip_randomstring\<close>, lines 80 to 82.\<close>

definition strip_randomstring :: "string \<Rightarrow> string" where
  "strip_randomstring value = py_strip (py_replace ''randomstring'' [] value)"

text \<open>
  The generator \<^verbatim>\<open>strip_randomstring(b) for b in booths_raw if b\<close>: falsy entries are
  skipped before the cleanup; a truthy entry that is not a string has no \<^verbatim>\<open>replace\<close>.
\<close>

fun clean_booths :: "json list \<Rightarrow> error + string list" where
  "clean_booths [] = Inr []"
| "clean_booths (b # bs) =
     (if truthy b then
        (case b of
           JStr s \<Rightarrow>
             (case clean_booths bs of
                Inl e \<Rightarrow> Inl e
              | Inr rest \<Rightarrow> Inr (strip_randomstring s # rest))
         | _ \<Rightarrow> Inl AttributeError)
      else clean_booths bs)"

text \<open>The column names \<^verbatim>\<open>fieldnames\<close> of \<^verbatim>\<open>write_csv\<close>, lines 110 to 123.\<close>

definition fieldnames :: "string list" where
  "fieldnames =
     [''exhibitor_id'', ''name'', ''booths'', ''hall'', ''description'', ''seeking_funding'',
      ''funding_amount'', ''investment_stage'', ''revenue'', ''logo_file'', ''featured'',
      ''tags'']"

text \<open>
  \<^verbatim>\<open>fields.get(k, "")\<close> on a value already known to be a dictionary.
\<close>

definition field_or_empty :: "(string \<times> json) list \<Rightarrow> string \<Rightarrow> json" where
  "field_or_empty fs k = (case map_of fs k of None \<Rightarrow> JStr [] | Some v \<Rightarrow> v)"

text \<open>\<^verbatim>\<open>fields.get(k)\<close> on a dictionary: \<^verbatim>\<open>None\<close> when the key is absent.\<close>

definition field_or_none :: "(string \<times> json) list \<Rightarrow> string \<Rightarrow> json" where
  "field_or_none fs k = (case map_of fs k of None \<Rightarrow> JNull | Some v \<Rightarrow> v)"

text \<open>
  \<^verbatim>\<open>hit_to_row\<close>, lines 85 to 106. The row is the dictionary it returns, as the list of
  its items in insertion order.
\<close>

definition hit_to_row :: "json \<Rightarrow> error + (string \<times> json) list" where
  "hit_to_row hit =
     (case py_get hit ''fields'' (JObj []) of
        Inl e \<Rightarrow> Inl e
      | Inr (JObj fs) \<Rightarrow>
          (case py_iter (py_or (field_or_none fs ''boothsdisplay_la'') (JArr [])) of
             Inl e \<Rightarrow> Inl e
           | Inr booths_raw \<Rightarrow>
          (case clean_booths booths_raw of
             Inl e \<Rightarrow> Inl e
           | Inr cleaned \<Rightarrow>
          (case py_iter (py_or (field_or_none fs ''hallid_la'') (JArr [])) of
             Inl e \<Rightarrow> Inl e
           | Inr hall_items \<Rightarrow>
          (case py_join ''; '' hall_items of
             Inl e \<Rightarrow> Inl e
           | Inr halls \<Rightarrow>
          (case py_iter (py_or (field_or_none fs ''exhtags_la'')
                          (py_or (field_or_none fs ''tags'') (JArr []))) of
             Inl e \<Rightarrow> Inl e
           | Inr tag_items \<Rightarrow>
          (case py_join ''; '' tag_items of
             Inl e \<Rightarrow> Inl e
           | Inr tags \<Rightarrow>
               Inr [(''exhibitor_id'', field_or_empty fs ''exhid_l''),
                    (''name'', field_or_empty fs ''exhname_t''),
                    (''booths'', JStr (join ''; '' cleaned)),
                    (''hall'', JStr halls),
                    (''description'', field_or_empty fs ''exhdesc_t''),
                    (''seeking_funding'', field_or_empty fs ''seekfunding_t''),
                    (''funding_amount'', field_or_empty fs ''fundingamount_t''),
                    (''investment_stage'', field_or_empty fs ''investmentstage_l''),
                    (''revenue'', field_or_empty fs ''revenue_t''),
                    (''logo_file'', field_or_empty fs ''exhlogo_t''),
                    (''featured'', field_or_empty fs ''exhfeatured_t''),
                    (''tags'', JStr tags)]))))))
      | Inr _ \<Rightarrow> Inl AttributeError)"

section \<open>The paginator\<close>

text \<open>
  What one search request comes back with: \<^verbatim>\<open>session.get\<close> raised, or
  \<^verbatim>\<open>raise_for_status\<close> did, or \<^verbatim>\<open>resp.json()\<close> did, or the parsed body.
\<close>

datatype response = Conn_Failed | Bad_Status | Not_Json | Body json

text \<open>
  The local variables of \<^verbatim>\<open>fetch_exhibitors\<close> that outlive an iteration, with the
  state of the remote site and session (\<open>server\<close>) and the query parameters of the
  requests sent so far (\<open>sent\<close>). Before the first page \<open>total\<close> is \<^verbatim>\<open>None\<close> and
  \<open>batch\<close> is not bound yet, which \<^const>\<open>JNull\<close> stands for.
\<close>

record 's loop_state =
  server :: 's
  sent :: "(string \<times> json) list list"
  hits :: "json list"
  start :: int
  total :: json
  batch :: json

text \<open>An iteration of \<^verbatim>\<open>while True\<close> ends in the next iteration, or leaves the loop.\<close>

datatype 's outcome =
    Next "'s loop_state"
  | Stop "error + json list" "'s loop_state"

text \<open>The query parameters of a search request, lines 48 to 55.\<close>

definition search_params ::
  "string \<Rightarrow> int \<Rightarrow> string \<Rightarrow> string \<Rightarrow> int \<Rightarrow> (string \<times> json) list" where
  "search_params keyword page_size searchtype show_section offset =
     [(''action'', JStr ''search''),
      (''search'', JStr keyword),
      (''searchtype'', JStr searchtype),
      (''searchsize'', JNum page_size),
      (''start'', JNum offset),
      (''show'', JStr show_section)]"

text \<open>
  Lines 65 to 68: the success flag, then the section of the results.
\<close>

definition find_result :: "string \<Rightarrow> json \<Rightarrow> error + json" where
  "find_result show_section payload =
     (case py_get payload ''SUCCESS'' JNull of
        Inl e \<Rightarrow> Inl e
      | Inr flag \<Rightarrow>
          if \<not> truthy flag then Inl (RuntimeError payload)
          else
            (case py_item payload ''DATA'' of
               Inl e \<Rightarrow> Inl e
             | Inr data \<Rightarrow>
                 (case py_item data ''results'' of
                    Inl e \<Rightarrow> Inl e
                  | Inr results \<Rightarrow> py_item results show_section)))"

text \<open>
  Lines 69 to 75 on the section found: the new values of \<^verbatim>\<open>hits\<close>, \<^verbatim>\<open>start\<close>,
  \<^verbatim>\<open>total\<close> and \<^verbatim>\<open>batch\<close>, and whether the loop is left.
\<close>

definition take_page ::
  "json \<Rightarrow> json list \<Rightarrow> int \<Rightarrow> error + (json list \<times> int \<times> json \<times> json \<times> bool)" where
  "take_page result hs offset =
     (case py_get result ''hit'' (JArr []) of
        Inl e \<Rightarrow> Inl e
      | Inr b \<Rightarrow>
          (case py_iter b of
             Inl e \<Rightarrow> Inl e
           | Inr items \<Rightarrow>
               (let hs' = hs @ items in
                (case py_get result ''found'' (JNum (int (length hs'))) of
                   Inl e \<Rightarrow> Inl e
                 | Inr t \<Rightarrow>
                     (let offset' = offset + int (length items) in
                      (case py_ge offset' t of
                         Inl e \<Rightarrow> Inl e
                       | Inr reached \<Rightarrow> Inr (hs', offset', t, b, reached \<or> \<not> truthy b)))))))"

text \<open>One iteration of the loop, lines 48 to 75.\<close>

definition fetch_step ::
  "('s \<Rightarrow> (string \<times> json) list \<Rightarrow> response \<times> 's) \<Rightarrow> string \<Rightarrow> int \<Rightarrow> string \<Rightarrow> string \<Rightarrow>
     's loop_state \<Rightarrow> 's outcome" where
  "fetch_step session_get keyword page_size searchtype show_section st =
     (let params = search_params keyword page_size searchtype show_section (start st);
          answer = session_get (server st) params;
          st1 = st\<lparr>server := snd answer, sent := sent st @ [params]\<rparr>
      in case fst answer of
           Conn_Failed \<Rightarrow> Stop (Inl TransportError) st1
         | Bad_Status \<Rightarrow> Stop (Inl HTTPError) st1
         | Not_Json \<Rightarrow> Stop (Inl JSONDecodeError) st1
         | Body payload \<Rightarrow>
             (case find_result show_section payload of
                Inl e \<Rightarrow> Stop (Inl e) st1
              | Inr result \<Rightarrow>
                  (case take_page result (hits st) (start st) of
                     Inl e \<Rightarrow> Stop (Inl e) st1
                   | Inr (hs', offset', t, b, leave) \<Rightarrow>
                       (let st2 = st1\<lparr>hits := hs', start := offset', total := t, batch := b\<rparr>
                        in if leave then Stop (Inr hs') st2 else Next st2))))"

text \<open>
  \<^verbatim>\<open>while True\<close>: the loop has no bound of its own, so a run that never leaves it has
  the value \<^const>\<open>None\<close>.
\<close>

partial_function (option) while_true ::
  "('s loop_state \<Rightarrow> 's outcome) \<Rightarrow> 's loop_state \<Rightarrow> ((error + json list) \<times> 's loop_state) option" where
  "while_true body st =
     (case body st of
        Stop r st' \<Rightarrow> Some (r, st')
      | Next st' \<Rightarrow> while_true body st')"

text \<open>The state in which \<^verbatim>\<open>fetch_exhibitors\<close> enters the loop, lines 43 to 45.\<close>

definition initial_state :: "'s \<Rightarrow> 's loop_state" where
  "initial_state s = \<lparr>server = s, sent = [], hits = [], start = 0, total = JNull, batch = JNull\<rparr>"

text \<open>
  \<^verbatim>\<open>fetch_exhibitors\<close>, lines 35 to 77: the exception raised or the list returned, with
  the final state.
\<close>

definition fetch_exhibitors ::
  "('s \<Rightarrow> (string \<times> json) list \<Rightarrow> response \<times> 's) \<Rightarrow> 's \<Rightarrow> string \<Rightarrow> int \<Rightarrow> string \<Rightarrow> string \<Rightarrow>
     ((error + json list) \<times> 's loop_state) option" where
  "fetch_exhibitors session_get s keyword page_size searchtype show_section =
     while_true (fetch_step session_get keyword page_size searchtype show_section) (initial_state s)"

text \<open>
  The state at the start of iteration \<open>n\<close> (counted from 0) of a loop entered in \<open>st\<close>,
  if the loop gets that far.
\<close>

fun after_pages :: "('s loop_state \<Rightarrow> 's outcome) \<Rightarrow> nat \<Rightarrow> 's loop_state \<Rightarrow> 's loop_state option" where
  "after_pages body 0 st = Some st"
| "after_pages body (Suc n) st =
     (case body st of
        Next st' \<Rightarrow> after_pages body n st'
      | Stop r st' \<Rightarrow> None)"

section \<open>The program\<close>

text \<open>
  What the program meets outside itself: the priming request of \<^verbatim>\<open>bootstrap_session\<close>,
  lines 26 to 32 (whether it went through, and the state it leaves), the search requests,
  whether a path can be opened for writing, and the line typed at the prompt
  (\<^const>\<open>None\<close> at the end of the input).
\<close>

record 's platform =
  bootstrap_session :: "'s \<Rightarrow> bool \<times> 's"
  session_get :: "'s \<Rightarrow> (string \<times> json) list \<Rightarrow> response \<times> 's"
  may_open :: "string \<Rightarrow> bool"
  typed_line :: "string option"

text \<open>Line 18.\<close>

definition DEFAULT_PAGE_SIZE :: int where
  "DEFAULT_PAGE_SIZE = 200"

text \<open>The parsed command line.\<close>

record args =
  arg_keyword :: "string option"
  arg_output :: "string option"
  arg_show :: string
  arg_page_size :: int

text \<open>
  A written file is its header and the rows of cell values handed to the CSV writer; the
  text that the writer makes of them (quoting, line ends) is not modelled.
\<close>

record 's world =
  remote :: 's
  files :: "string \<Rightarrow> (string list \<times> json list list) option"

text \<open>\<^verbatim>\<open>[hit_to_row(hit) for hit in hits]\<close>: the first exception ends the comprehension.\<close>

fun rows_of :: "json list \<Rightarrow> error + (string \<times> json) list list" where
  "rows_of [] = Inr []"
| "rows_of (h # hs) =
     (case hit_to_row h of
        Inl e \<Rightarrow> Inl e
      | Inr row \<Rightarrow>
          (case rows_of hs of
             Inl e \<Rightarrow> Inl e
           | Inr rows \<Rightarrow> Inr (row # rows)))"

text \<open>
  \<^verbatim>\<open>write_csv\<close>, lines 109 to 128: the file is opened (and so created or emptied) first.
  Each row gives its value for each column name, in the order of \<^const>\<open>fieldnames\<close>; the
  writer refuses a row with a key that is no column name, after the rows before it.
\<close>

definition write_csv ::
  "(string \<Rightarrow> bool) \<Rightarrow> (string \<times> json) list list \<Rightarrow> string \<Rightarrow> 's world \<Rightarrow> (error + unit) \<times> 's world" where
  "write_csv can_open rows output_path w =
     (if can_open output_path
      then
        (let accepted = takeWhile (\<lambda>row. list_all (\<lambda>k. k \<in> set fieldnames) (map fst row)) rows;
             w' = w\<lparr>files := (files w)(output_path \<mapsto>
                    (fieldnames, map (\<lambda>row. map (field_or_empty row) fieldnames) accepted))\<rparr>
         in if length accepted = length rows then (Inr (), w') else (Inl ValueError, w'))
      else (Inl OSError, w))"

text \<open>Line 156: \<^verbatim>\<open>args.keyword or input("Enter search keyword: ").strip()\<close>.\<close>

definition read_keyword :: "'s platform \<Rightarrow> args \<Rightarrow> error + string" where
  "read_keyword p a =
     (case arg_keyword a of
        Some k \<Rightarrow>
          if k \<noteq> [] then Inr k
          else (case typed_line p of None \<Rightarrow> Inl EOFError | Some l \<Rightarrow> Inr (py_strip l))
      | None \<Rightarrow> (case typed_line p of None \<Rightarrow> Inl EOFError | Some l \<Rightarrow> Inr (py_strip l)))"

text \<open>Line 160: \<^verbatim>\<open>args.output or f"exhibitors_{keyword}.csv"\<close>.\<close>

definition output_path_of :: "args \<Rightarrow> string \<Rightarrow> string" where
  "output_path_of a keyword =
     (case arg_output a of
        Some out \<Rightarrow> if out \<noteq> [] then out else ''exhibitors_'' @ keyword @ ''.csv''
      | None \<Rightarrow> ''exhibitors_'' @ keyword @ ''.csv'')"

text \<open>
  \<^verbatim>\<open>main\<close>, lines 131 to 171, from the parsed arguments on. The closing \<^verbatim>\<open>print\<close> is
  left out.
\<close>

definition main :: "'s platform \<Rightarrow> args \<Rightarrow> 's world \<Rightarrow> ((error + unit) \<times> 's world) option" where
  "main p a w =
     (case read_keyword p a of
        Inl e \<Rightarrow> Some (Inl e, w)
      | Inr keyword \<Rightarrow>
          if keyword = [] then Some (Inl (SystemExit ''Keyword is required.''), w)
          else
            (let output_path = output_path_of a keyword;
                 primed = bootstrap_session p (remote w)
             in if \<not> fst primed then Some (Inl TransportError, w\<lparr>remote := snd primed\<rparr>)
                else
                  (case fetch_exhibitors (session_get p) (snd primed) keyword (arg_page_size a)
                          ''keyword'' (arg_show a) of
                     None \<Rightarrow> None
                   | Some (Inl e, st) \<Rightarrow> Some (Inl e, w\<lparr>remote := server st\<rparr>)
                   | Some (Inr found_hits, st) \<Rightarrow>
                       (case rows_of found_hits of
                          Inl e \<Rightarrow> Some (Inl e, w\<lparr>remote := server st\<rparr>)
                        | Inr rows \<Rightarrow>
                            Some (write_csv (may_open p) rows output_path (w\<lparr>remote := server st\<rparr>))))))"

section \<open>Notions in which the properties are stated\<close>

subsection \<open>Strings and records\<close>

definition starts_with_space :: "string \<Rightarrow> bool" where
  "starts_with_space s = (case s of [] \<Rightarrow> False | c # cs \<Rightarrow> is_space c)"

definition ends_with_space :: "string \<Rightarrow> bool" where
  "ends_with_space s = starts_with_space (rev s)"

text \<open>
  The pieces into which the occurrences of \<open>m\<close> cut \<open>s\<close>, the occurrences being found
  from left to right without overlap (\<^verbatim>\<open>s.split(m)\<close>).
\<close>

function pieces :: "string \<Rightarrow> string \<Rightarrow> string list" where
  "pieces m [] = [[]]"
| "pieces m (c # cs) =
     (if m \<noteq> [] \<and> prefix m (c # cs) then [] # pieces m (drop (length m) (c # cs))
      else (case pieces m cs of
              [] \<Rightarrow> [[c]]
            | p # ps \<Rightarrow> (c # p) # ps))"
  by pat_completeness auto
termination
  by (relation "measure (\<lambda>(m, s). length s)") auto

text \<open>The strings of a list of strings.\<close>

fun str_list :: "json \<Rightarrow> string list option" where
  "str_list (JArr xs) = (if list_all is_str xs then Some (map str_of xs) else None)"
| "str_list _ = None"

text \<open>A list-valued field of a record: its entries, none if the field is absent.\<close>

definition list_field :: "(string \<times> json) list \<Rightarrow> string \<Rightarrow> string list option" where
  "list_field fs k = (case map_of fs k of None \<Rightarrow> Some [] | Some v \<Rightarrow> str_list v)"

text \<open>The nested field mapping of a record, empty if the record has none.\<close>

definition record_fields :: "json \<Rightarrow> (string \<times> json) list option" where
  "record_fields hit =
     (case hit of
        JObj h \<Rightarrow>
          (case map_of h ''fields'' of
             None \<Rightarrow> Some []
           | Some (JObj fs) \<Rightarrow> Some fs
           | Some _ \<Rightarrow> None)
      | _ \<Rightarrow> None)"

text \<open>A value that a field of a Record may hold: a string or a list of strings.\<close>

fun field_ok :: "json \<Rightarrow> bool" where
  "field_ok (JStr s) = True"
| "field_ok (JArr xs) = list_all is_str xs"
| "field_ok _ = False"

text \<open>
  A Record of the data model: a mapping whose nested field mapping, empty if it has none,
  gives each field name that it has a string or a list of strings.
\<close>

definition is_record :: "json \<Rightarrow> bool" where
  "is_record hit =
     (case record_fields hit of
        None \<Rightarrow> False
      | Some fs \<Rightarrow>
          list_all (\<lambda>k. case map_of fs k of None \<Rightarrow> True | Some v \<Rightarrow> field_ok v) (map fst fs))"

text \<open>The nine columns that are looked up directly, each with its source field.\<close>

definition scalar_columns :: "(string \<times> string) list" where
  "scalar_columns =
     [(''exhibitor_id'', ''exhid_l''),
      (''name'', ''exhname_t''),
      (''description'', ''exhdesc_t''),
      (''seeking_funding'', ''seekfunding_t''),
      (''funding_amount'', ''fundingamount_t''),
      (''investment_stage'', ''investmentstage_l''),
      (''revenue'', ''revenue_t''),
      (''logo_file'', ''exhlogo_t''),
      (''featured'', ''exhfeatured_t'')]"

text \<open>Each column of a row with the source fields that it is computed from.\<close>

definition column_sources :: "(string \<times> string list) list" where
  "column_sources =
     [(''exhibitor_id'', [''exhid_l'']),
      (''name'', [''exhname_t'']),
      (''booths'', [''boothsdisplay_la'']),
      (''hall'', [''hallid_la'']),
      (''description'', [''exhdesc_t'']),
      (''seeking_funding'', [''seekfunding_t'']),
      (''funding_amount'', [''fundingamount_t'']),
      (''investment_stage'', [''investmentstage_l'']),
      (''revenue'', [''revenue_t'']),
      (''logo_file'', [''exhlogo_t'']),
      (''featured'', [''exhfeatured_t'']),
      (''tags'', [''exhtags_la'', ''tags''])]"

text \<open>
  The booths column as the specification words it: the entries are cleaned first, and the
  entries that are empty after the cleanup are left out of the join.
\<close>

definition booths_as_stated :: "string list \<Rightarrow> string" where
  "booths_as_stated bs = join ''; '' (filter (\<lambda>b. b \<noteq> []) (map strip_randomstring bs))"

text \<open>
  The tags column as the specification words it: the first tag field if it is present,
  else the alternate one if it is present, else the empty list.
\<close>

definition tags_as_stated :: "(string \<times> json) list \<Rightarrow> string option" where
  "tags_as_stated fs =
     (case map_of fs ''exhtags_la'' of
        Some v \<Rightarrow> map_option (join ''; '') (str_list v)
      | None \<Rightarrow>
          (case map_of fs ''tags'' of
             Some v \<Rightarrow> map_option (join ''; '') (str_list v)
           | None \<Rightarrow> Some []))"

subsection \<open>Pages and servers\<close>

text \<open>
  The page that the loop reads in state \<open>st\<close>: its records and its total (the found
  count, or by default the number of records accumulated with this page), provided that
  reading it raises nothing.
\<close>

definition page_at ::
  "('s \<Rightarrow> (string \<times> json) list \<Rightarrow> response \<times> 's) \<Rightarrow> string \<Rightarrow> int \<Rightarrow> string \<Rightarrow> string \<Rightarrow>
     's loop_state \<Rightarrow> (json list \<times> int) option" where
  "page_at g keyword page_size searchtype show_section st =
     (case fst (g (server st) (search_params keyword page_size searchtype show_section (start st))) of
        Body payload \<Rightarrow>
          (case find_result show_section payload of
             Inr result \<Rightarrow>
               (case py_get result ''hit'' (JArr []) of
                  Inr b \<Rightarrow>
                    (case py_iter b of
                       Inr items \<Rightarrow>
                         (case py_get result ''found'' (JNum (int (length (hits st @ items)))) of
                            Inr t \<Rightarrow>
                              (case int_value t of
                                 Some m \<Rightarrow> Some (items, m)
                               | None \<Rightarrow> None)
                          | Inl e \<Rightarrow> None)
                     | Inl e \<Rightarrow> None)
                | Inl e \<Rightarrow> None)
           | Inl e \<Rightarrow> None)
      | _ \<Rightarrow> None)"

text \<open>
  The body with which a server that holds the records \<open>db\<close> and reports the found
  count \<open>reported\<close> answers a request for \<open>page_size\<close> records from \<open>offset\<close> on.
  The server is well-behaved when it reports the number of records that it holds.
\<close>

definition page_payload :: "json list \<Rightarrow> int \<Rightarrow> string \<Rightarrow> int \<Rightarrow> int \<Rightarrow> json" where
  "page_payload db reported show_section page_size offset =
     JObj [(''SUCCESS'', JBool True),
           (''DATA'', JObj [(''results'', JObj [(show_section,
              JObj [(''hit'', JArr (take (nat page_size) (drop (nat offset) db))),
                    (''found'', JNum reported)])])])]"

text \<open>
  A well-behaved server, whatever its state: it answers each search request with the
  records that it holds from the requested offset on, at most a page of them, and reports
  their number.
\<close>

definition well_behaved ::
  "('s \<Rightarrow> (string \<times> json) list \<Rightarrow> response \<times> 's) \<Rightarrow> string \<Rightarrow> int \<Rightarrow> string \<Rightarrow> string \<Rightarrow>
     json list \<Rightarrow> bool" where
  "well_behaved g keyword page_size searchtype show_section db =
     (\<forall>s offset. fst (g s (search_params keyword page_size searchtype show_section offset))
        = Body (page_payload db (int (length db)) show_section page_size offset))"

text \<open>The number of pages of size \<open>p\<close> that \<open>n\<close> records fill: \<open>n / p\<close> rounded up.\<close>

definition pages_needed :: "nat \<Rightarrow> nat \<Rightarrow> nat" where
  "pages_needed n p = (n + p - 1) div p"

text \<open>The offset and the page size that a request asks for.\<close>

definition requested_start :: "(string \<times> json) list \<Rightarrow> int" where
  "requested_start params = (case map_of params ''start'' of Some (JNum n) \<Rightarrow> n | _ \<Rightarrow> 0)"

definition requested_size :: "(string \<times> json) list \<Rightarrow> int" where
  "requested_size params = (case map_of params ''searchsize'' of Some (JNum n) \<Rightarrow> n | _ \<Rightarrow> 0)"

text \<open>
  A server without state that holds \<open>db\<close> and reports \<open>reported\<close>: it reads the page
  size and the offset from the request.
\<close>

definition paging_server ::
  "json list \<Rightarrow> int \<Rightarrow> string \<Rightarrow> unit \<Rightarrow> (string \<times> json) list \<Rightarrow> response \<times> unit" where
  "paging_server db reported show_section s params =
     (Body (page_payload db reported show_section (requested_size params) (requested_start params)),
      ())"

text \<open>
  A server that answers its requests with the responses of a script, in order, whatever
  is asked, and fails to connect once the script is over. Its state is the number of
  requests answered.
\<close>

definition scripted_server :: "response list \<Rightarrow> nat \<Rightarrow> (string \<times> json) list \<Rightarrow> response \<times> nat" where
  "scripted_server script k params =
     ((if k < length script then script ! k else Conn_Failed), Suc k)"

subsection \<open>Inputs of the examples\<close>

text \<open>The record of the round-trip scenario, and records that separate the code from the wording.\<close>

definition booth_example :: json where
  "booth_example =
     JObj [(''fields'', JObj [(''boothsdisplay_la'',
        JArr [JStr ''Hall A-123randomstring'', JStr ''  B-45  ''])])]"

definition marker_only_example :: json where
  "marker_only_example =
     JObj [(''fields'', JObj [(''boothsdisplay_la'',
        JArr [JStr ''A'', JStr ''randomstring'', JStr ''B''])])]"

definition empty_tags_example :: json where
  "empty_tags_example =
     JObj [(''fields'', JObj [(''exhtags_la'', JArr []), (''tags'', JArr [JStr ''x''])])]"

definition list_name_example :: json where
  "list_name_example = JObj [(''fields'', JObj [(''exhname_t'', JArr [JStr ''a'', JStr ''b''])])]"

definition name_only_example :: json where
  "name_only_example = JObj [(''fields'', JObj [(''exhname_t'', JStr ''Acme'')])]"

text \<open>
  Servers of the examples: one that returns two records and reports one, one that holds two
  records and keeps reporting five, one that holds three and says so, and one that holds
  none.
\<close>

definition overshooting_server :: "unit \<Rightarrow> (string \<times> json) list \<Rightarrow> response \<times> unit" where
  "overshooting_server = paging_server [name_only_example, booth_example] 1 ''exhibitor''"

definition stale_server :: "unit \<Rightarrow> (string \<times> json) list \<Rightarrow> response \<times> unit" where
  "stale_server = paging_server [name_only_example, booth_example] 5 ''exhibitor''"

definition three_server :: "unit \<Rightarrow> (string \<times> json) list \<Rightarrow> response \<times> unit" where
  "three_server =
     paging_server [name_only_example, booth_example, marker_only_example] 3 ''exhibitor''"

definition empty_server :: "unit \<Rightarrow> (string \<times> json) list \<Rightarrow> response \<times> unit" where
  "empty_server = paging_server [] 0 ''exhibitor''"

text \<open>
  Bodies of the examples: a refusal, a success without \<open>DATA\<close>, a success whose section
  is empty, a success whose section has a hit list and no found count, and a success whose
  section has \<^verbatim>\<open>null\<close> for its hit list and no found count.
\<close>

definition refusal_payload :: json where
  "refusal_payload = JObj [(''SUCCESS'', JBool False), (''MESSAGE'', JStr ''busy'')]"

definition no_data_payload :: json where
  "no_data_payload = JObj [(''SUCCESS'', JBool True)]"

definition bare_payload :: json where
  "bare_payload =
     JObj [(''SUCCESS'', JBool True),
           (''DATA'', JObj [(''results'', JObj [(''exhibitor'', JObj [])])])]"

definition null_hit_payload :: json where
  "null_hit_payload =
     JObj [(''SUCCESS'', JBool True),
           (''DATA'', JObj [(''results'', JObj [(''exhibitor'', JObj [(''hit'', JNull)])])])]"

definition uncounted_payload :: json where
  "uncounted_payload =
     JObj [(''SUCCESS'', JBool True),
           (''DATA'', JObj [(''results'', JObj [(''exhibitor'',
              JObj [(''hit'', JArr [booth_example])])])])]"

text \<open>
  A first page with one record of a reported five, as a scripted server sends it before
  another body.
\<close>

definition first_of_five :: json where
  "first_of_five = page_payload [name_only_example] 5 ''exhibitor'' 200 0"

text \<open>The platform, arguments and world in which the examples run the program.\<close>

definition example_platform :: "response list \<Rightarrow> nat platform" where
  "example_platform script =
     \<lparr>bootstrap_session = (\<lambda>s. (True, s)), session_get = scripted_server script,
      may_open = (\<lambda>path. True), typed_line = None\<rparr>"

definition example_args :: args where
  "example_args =
     \<lparr>arg_keyword = Some ''ai'', arg_output = None, arg_show = ''exhibitor'',
      arg_page_size = DEFAULT_PAGE_SIZE\<rparr>"

definition example_world :: "nat world" where
  "example_world = \<lparr>remote = 0, files = (\<lambda>path. None)\<rparr>"

text \<open>
  States of the examples: the one in which the run against the overshooting server ends,
  the one in which the run against the stale server enters its second iteration, and the
  one in which a run that was sent the first of five records enters its second iteration.
\<close>

definition overshooting_final :: "unit loop_state" where
  "overshooting_final =
     \<lparr>server = (), sent = [search_params ''ai'' 200 ''keyword'' ''exhibitor'' 0],
      hits = [name_only_example, booth_example], start = 2, total = JNum 1,
      batch = JArr [name_only_example, booth_example]\<rparr>"

definition stale_second :: "unit loop_state" where
  "stale_second =
     \<lparr>server = (), sent = [search_params ''ai'' 2 ''keyword'' ''exhibitor'' 0],
      hits = [name_only_example, booth_example], start = 2, total = JNum 5,
      batch = JArr [name_only_example, booth_example]\<rparr>"

definition scripted_second :: "nat loop_state" where
  "scripted_second =
     \<lparr>server = 1, sent = [search_params ''ai'' 200 ''keyword'' ''exhibitor'' 0],
      hits = [name_only_example], start = 1, total = JNum 5,
      batch = JArr [name_only_example]\<rparr>"

section \<open>Cleaning a booth text\<close>

lemma dropWhile_no_space: "\<not> starts_with_space (dropWhile is_space s)"
  by (induction s) (auto simp: starts_with_space_def)

lemma starts_with_space_prefix:
  "prefix (c # cs) s \<Longrightarrow> starts_with_space s = is_space c"
  by (cases s) (auto simp: starts_with_space_def)

lemma py_strip_no_leading: "\<not> starts_with_space (py_strip s)"
proof (cases "py_strip s")
  case Nil
  then show ?thesis by (simp add: starts_with_space_def)
next
  case (Cons c cs)
  have "prefix (py_strip s) (dropWhile is_space s)"
    unfolding py_strip_def
    by (metis dropWhile_eq_drop prefix_def rev_append rev_rev_ident append_take_drop_id rev_take
        takeWhile_dropWhile_id)
  then have "starts_with_space (dropWhile is_space s) = is_space c"
    using Cons by (simp add: starts_with_space_prefix)
  then show ?thesis
    using Cons dropWhile_no_space[of s] by (simp add: starts_with_space_def)
qed

lemma py_strip_no_trailing: "\<not> ends_with_space (py_strip s)"
  by (simp add: ends_with_space_def py_strip_def dropWhile_no_space)

text \<open>Dropping leading characters that the marker does not start with keeps its occurrences.\<close>

lemma sublist_dropWhile:
  assumes "m \<noteq> []" "\<not> P (hd m)"
  shows "sublist m (dropWhile P s) \<longleftrightarrow> sublist m s"
proof (induction s)
  case Nil
  then show ?case by simp
next
  case (Cons c cs)
  show ?case
  proof (cases "P c")
    case True
    have "\<not> prefix m (c # cs)"
      using assms True by (cases m) auto
    then show ?thesis using True Cons by (simp add: sublist_Cons_right)
  next
    case False
    then show ?thesis by simp
  qed
qed

lemma sublist_py_strip:
  assumes "m \<noteq> []" "\<not> is_space (hd m)" "\<not> is_space (last m)"
  shows "sublist m (py_strip s) \<longleftrightarrow> sublist m s"
proof -
  have "sublist m (py_strip s)
          \<longleftrightarrow> sublist (rev m) (dropWhile is_space (rev (dropWhile is_space s)))"
    unfolding py_strip_def by (metis sublist_rev rev_rev_ident)
  also have "\<dots> \<longleftrightarrow> sublist (rev m) (rev (dropWhile is_space s))"
    using assms by (intro sublist_dropWhile) (auto simp: hd_rev)
  also have "\<dots> \<longleftrightarrow> sublist m (dropWhile is_space s)"
    by (simp add: sublist_rev)
  also have "\<dots> \<longleftrightarrow> sublist m s"
    using assms by (intro sublist_dropWhile) auto
  finally show ?thesis .
qed

lemma py_replace_absent:
  "old \<noteq> [] \<Longrightarrow> \<not> sublist old s \<Longrightarrow> py_replace old new s = s"
  by (induction s) (auto simp: sublist_Cons_right)

text \<open>
  A marker whose last character occurs nowhere else in it cannot overlap a copy of itself,
  so no occurrence starts inside a marker-free text that the marker is appended to.
\<close>

lemma no_overlap_with_appended:
  assumes last_once: "last m \<notin> set (butlast m)"
    and "xs \<noteq> []" "\<not> sublist m xs"
  shows "\<not> prefix m (xs @ m)"
proof
  assume "prefix m (xs @ m)"
  then consider "prefix m xs" | us where "m = xs @ us" "prefix us m"
    by (auto simp: prefix_append)
  then show False
  proof cases
    case 1
    then show ?thesis using assms(3) by auto
  next
    case 2
    show ?thesis
    proof (cases "us = []")
      case True
      then show ?thesis using 2 assms(3) by simp
    next
      case False
      have "length us < length m" using 2(1) assms(2) by simp
      moreover obtain zs where zs: "m = us @ zs" using 2(2) by (auto simp: prefix_def)
      ultimately have "zs \<noteq> []" by auto
      then have "butlast m = us @ butlast zs" using zs by (simp add: butlast_append)
      then have "prefix us (butlast m)" by simp
      then have "set us \<subseteq> set (butlast m)"
        by (simp add: set_mono_prefix)
      moreover have "last m = last us" using 2(1) False by (metis last_append)
      ultimately show ?thesis using last_once False by (metis last_in_set subsetD)
    qed
  qed
qed

lemma py_replace_appended:
  assumes "m \<noteq> []" "last m \<notin> set (butlast m)" "\<not> sublist m body"
  shows "py_replace m [] (body @ m) = body"
  using assms(3)
proof (induction body)
  case Nil
  have "py_replace m [] m = []" using assms(1) by (cases m) auto
  then show ?case by simp
next
  case (Cons c cs)
  have "\<not> prefix m ((c # cs) @ m)"
    using no_overlap_with_appended[OF assms(2) _ Cons.prems] by simp
  moreover have "\<not> sublist m cs" using Cons.prems by (simp add: sublist_Cons_right)
  ultimately show ?case using Cons.IH assms(1) by simp
qed

text \<open>Cutting a text at the marker: the pieces join back to the text and are marker-free.\<close>

lemma pieces_nonempty: "pieces m s \<noteq> []"
  by (induction m s rule: pieces.induct) (auto split: list.splits)

lemma join_Cons_first: "join m ((c # p) # ps) = c # join m (p # ps)"
  by (cases ps) auto

lemma join_pieces: "m \<noteq> [] \<Longrightarrow> join m (pieces m s) = s"
proof (induction m s rule: pieces.induct)
  case (1 m)
  then show ?case by simp
next
  case (2 m c cs)
  show ?case
  proof (cases "prefix m (c # cs)")
    case True
    obtain p ps where ps: "pieces m (drop (length m) (c # cs)) = p # ps"
      using pieces_nonempty by (cases "pieces m (drop (length m) (c # cs))") auto
    have "join m ([] # p # ps) = m @ drop (length m) (c # cs)"
      using 2(1) 2(3) True ps by simp
    also have "\<dots> = c # cs"
      using True by (metis append_eq_conv_conj prefix_def)
    finally show ?thesis using True 2(3) ps by simp
  next
    case False
    obtain p ps where ps: "pieces m cs = p # ps"
      using pieces_nonempty by (cases "pieces m cs") auto
    then show ?thesis using False 2(2) 2(3) by (simp add: join_Cons_first)
  qed
qed

lemma hd_pieces_prefix: "prefix (hd (pieces m s)) s"
  by (induction m s rule: pieces.induct) (auto split: list.splits)

lemma pieces_marker_free: "m \<noteq> [] \<Longrightarrow> list_all (\<lambda>p. \<not> sublist m p) (pieces m s)"
proof (induction m s rule: pieces.induct)
  case (1 m)
  then show ?case by simp
next
  case (2 m c cs)
  show ?case
  proof (cases "prefix m (c # cs)")
    case True
    then show ?thesis using 2(1) 2(3) by simp
  next
    case False
    obtain p ps where ps: "pieces m cs = p # ps"
      using pieces_nonempty by (cases "pieces m cs") auto
    have "prefix p cs" using hd_pieces_prefix[of m cs] ps by simp
    then have "\<not> prefix m (c # p)"
      using False by (meson Cons_prefix_Cons prefix_order.trans)
    moreover have "list_all (\<lambda>p. \<not> sublist m p) (p # ps)"
      using 2(2) 2(3) False ps by simp
    ultimately show ?thesis using False ps by (simp add: sublist_Cons_right)
  qed
qed

text \<open>
  Removing the marker from marker-free pieces joined by it leaves the pieces, one after
  another.
\<close>

lemma no_overlap_with_following:
  assumes "last m \<notin> set (butlast m)" "xs \<noteq> []" "\<not> sublist m xs"
  shows "\<not> prefix m (xs @ m @ r)"
proof
  assume "prefix m (xs @ m @ r)"
  then have "prefix m ((xs @ m) @ r)" by simp
  then consider "prefix m (xs @ m)" | us where "m = (xs @ m) @ us"
    unfolding prefix_append by blast
  then have "prefix m (xs @ m)"
  proof cases
    case 1
    then show ?thesis .
  next
    case 2
    then have "length m = length xs + length m + length us"
      by (metis length_append)
    then show ?thesis using assms(2) by simp
  qed
  then show False using no_overlap_with_appended[OF assms] by simp
qed

lemma py_replace_past_first:
  assumes "m \<noteq> []" "last m \<notin> set (butlast m)" "\<not> sublist m p"
  shows "py_replace m [] (p @ m @ r) = p @ py_replace m [] r"
  using assms(3)
proof (induction p)
  case Nil
  obtain c cs where m: "m = c # cs" using assms(1) by (cases m) auto
  show ?case unfolding m by simp
next
  case (Cons c cs)
  have "\<not> prefix m ((c # cs) @ m @ r)"
    using no_overlap_with_following[OF assms(2) _ Cons.prems] by simp
  moreover have "\<not> sublist m cs" using Cons.prems by (simp add: sublist_Cons_right)
  ultimately show ?case using Cons.IH assms(1) by simp
qed

lemma py_replace_join:
  "m \<noteq> [] \<Longrightarrow> last m \<notin> set (butlast m) \<Longrightarrow> list_all (\<lambda>p. \<not> sublist m p) ps
     \<Longrightarrow> py_replace m [] (join m ps) = concat ps"
proof (induction m ps rule: join.induct)
  case (1 sep)
  then show ?case by simp
next
  case (2 sep x)
  then show ?case by (simp add: py_replace_absent)
next
  case (3 sep x y ys)
  then show ?case by (simp add: py_replace_past_first del: py_replace.simps)
qed

text \<open>
  C2, as the code has it. For every input string the output of \<open>strip_randomstring\<close> has
  no leading and no trailing whitespace. The input is cut by its occurrences of the marker,
  found from left to right, into marker-free pieces, and the output is the trimmed
  concatenation of these pieces: every occurrence found is removed, wherever it stands.
  The same holds of any marker-free pieces joined by the marker. So the output contains
  the marker exactly when the concatenated pieces do, that is where the removal joins
  neighbouring pieces into a new occurrence; it contains none when the input contains none
  and none when the input is a marker-free text with the marker appended.
\<close>

theorem strip_randomstring_clean:
  "\<not> starts_with_space (strip_randomstring v)
   \<and> \<not> ends_with_space (strip_randomstring v)
   \<and> join ''randomstring'' (pieces ''randomstring'' v) = v
   \<and> list_all (\<lambda>p. \<not> sublist ''randomstring'' p) (pieces ''randomstring'' v)
   \<and> strip_randomstring v = py_strip (concat (pieces ''randomstring'' v))
   \<and> (sublist ''randomstring'' (strip_randomstring v)
        \<longleftrightarrow> sublist ''randomstring'' (concat (pieces ''randomstring'' v)))
   \<and> (sublist ''randomstring'' (strip_randomstring v)
        \<longleftrightarrow> sublist ''randomstring'' (py_replace ''randomstring'' [] v))
   \<and> (list_all (\<lambda>p. \<not> sublist ''randomstring'' p) ps \<longrightarrow>
        strip_randomstring (join ''randomstring'' ps) = py_strip (concat ps)
        \<and> (sublist ''randomstring'' (strip_randomstring (join ''randomstring'' ps))
             \<longleftrightarrow> sublist ''randomstring'' (concat ps)))
   \<and> (\<not> sublist ''randomstring'' v \<longrightarrow>
        strip_randomstring v = py_strip v
        \<and> \<not> sublist ''randomstring'' (strip_randomstring v)
        \<and> strip_randomstring (v @ ''randomstring'') = py_strip v
        \<and> \<not> sublist ''randomstring'' (strip_randomstring (v @ ''randomstring'')))"
proof -
  have m: "''randomstring'' \<noteq> []" "last ''randomstring'' \<notin> set (butlast ''randomstring'')"
    by simp_all
  have a: "\<not> sublist ''randomstring'' v \<Longrightarrow> py_replace ''randomstring'' [] v = v"
    by (rule py_replace_absent) simp_all
  have b: "\<not> sublist ''randomstring'' v
             \<Longrightarrow> py_replace ''randomstring'' [] (v @ ''randomstring'') = v"
    by (rule py_replace_appended) simp_all
  have c: "sublist ''randomstring'' (py_strip t) \<longleftrightarrow> sublist ''randomstring'' t" for t
    by (rule sublist_py_strip) (simp_all add: is_space_def)
  have j: "join ''randomstring'' (pieces ''randomstring'' v) = v"
    by (rule join_pieces[OF m(1)])
  have f: "list_all (\<lambda>p. \<not> sublist ''randomstring'' p) (pieces ''randomstring'' v)"
    by (rule pieces_marker_free[OF m(1)])
  have r: "py_replace ''randomstring'' [] (join ''randomstring'' qs) = concat qs"
    if "list_all (\<lambda>p. \<not> sublist ''randomstring'' p) qs" for qs
    by (rule py_replace_join[OF m that])
  have "py_replace ''randomstring'' [] (join ''randomstring'' (pieces ''randomstring'' v))
          = concat (pieces ''randomstring'' v)"
    by (rule r[OF f])
  then have d: "py_replace ''randomstring'' [] v = concat (pieces ''randomstring'' v)"
    unfolding j .
  show ?thesis
    unfolding strip_randomstring_def
    using a b j f
    by (auto simp: c d[symmetric] r py_strip_no_leading py_strip_no_trailing
        simp del: py_replace.simps pieces.simps)
qed

theorem strip_randomstring_clean_witness:
  "list_all (\<lambda>p. \<not> sublist ''randomstring'' p) [''Hall '', ''A-123'', '' '']
   \<and> strip_randomstring ''Hall randomstringA-123randomstring '' = ''Hall A-123''
   \<and> \<not> sublist ''randomstring'' (strip_randomstring ''Hall randomstringA-123randomstring '')
   \<and> \<not> sublist ''randomstring'' ''Hall A-123''
   \<and> strip_randomstring (''Hall A-123'' @ ''randomstring'') = ''Hall A-123''"
proof -
  have h: "list_all (\<lambda>p. \<not> sublist ''randomstring'' p) [''Hall '', ''A-123'', '' '']"
    by (simp add: sublist_Cons_right)
  have h2: "\<not> sublist ''randomstring'' ''Hall A-123''"
    by (simp add: sublist_Cons_right)
  have j: "join ''randomstring'' [''Hall '', ''A-123'', '' '']
             = ''Hall randomstringA-123randomstring ''"
    by simp
  have s: "py_strip (concat [''Hall '', ''A-123'', '' '']) = ''Hall A-123''"
    "py_strip ''Hall A-123'' = ''Hall A-123''"
    by (simp_all add: py_strip_def is_space_def)
  have n: "\<not> sublist ''randomstring'' (concat [''Hall '', ''A-123'', '' ''])"
    by (simp add: sublist_Cons_right)
  from strip_randomstring_clean[of "''Hall A-123''" "[''Hall '', ''A-123'', '' '']"] h h2 n
  show ?thesis
    unfolding j s by (simp del: append.simps concat.simps)
qed

text \<open>
  C2 as worded fails where removing an occurrence joins its neighbours into a new one.
\<close>

theorem strip_randomstring_counterexample:
  "strip_randomstring ''randomrandomstringstring'' = ''randomstring''
   \<and> sublist ''randomstring'' (strip_randomstring ''randomrandomstringstring'')"
  by (simp add: strip_randomstring_def py_strip_def is_space_def)

section \<open>Flattening a record\<close>

lemma str_list_JStr: "str_list v = Some ss \<Longrightarrow> v = JArr (map JStr ss)"
proof (cases v)
  case (JArr xs)
  assume a: "str_list v = Some ss"
  have all: "list_all is_str xs" and ss: "ss = map str_of xs"
    using a JArr by (auto split: if_splits)
  have "map JStr (map str_of xs) = xs"
    using all by (induction xs) (auto elim: is_str.elims)
  then show ?thesis using JArr ss by simp
qed auto

lemma py_join_strs: "py_join sep (map JStr ss) = Inr (join sep ss)"
  by (simp add: py_join_def list_all_iff comp_def)

lemma clean_booths_strs:
  "clean_booths (map JStr bs) = Inr (map strip_randomstring (filter (\<lambda>b. b \<noteq> []) bs))"
  by (induction bs) auto

lemma field_or_none_list:
  "list_field fs k = Some ss \<Longrightarrow>
     py_iter (py_or (field_or_none fs k) (JArr [])) = Inr (map JStr ss)"
  by (auto simp: list_field_def field_or_none_def py_or_def split: option.splits
      dest!: str_list_JStr)

text \<open>The \<^verbatim>\<open>or\<close> chain of line 91 on two lists of strings.\<close>

lemma tags_choice:
  "list_field fs k1 = Some t1 \<Longrightarrow> list_field fs k2 = Some t2 \<Longrightarrow>
   py_iter (py_or (field_or_none fs k1) (py_or (field_or_none fs k2) (JArr [])))
     = Inr (map JStr (if t1 \<noteq> [] then t1 else t2))"
  by (auto simp: list_field_def field_or_none_def py_or_def split: option.splits
      dest!: str_list_JStr)

lemma record_fields_get:
  "record_fields hit = Some fs \<Longrightarrow> py_get hit ''fields'' (JObj []) = Inr (JObj fs)"
  by (auto simp: record_fields_def split: json.splits option.splits)

lemma hit_to_row_typed:
  assumes "record_fields hit = Some fs"
    and "list_field fs ''boothsdisplay_la'' = Some bs"
    and "list_field fs ''hallid_la'' = Some hs"
    and "list_field fs ''exhtags_la'' = Some t1"
    and "list_field fs ''tags'' = Some t2"
  shows "hit_to_row hit =
     Inr [(''exhibitor_id'', field_or_empty fs ''exhid_l''),
          (''name'', field_or_empty fs ''exhname_t''),
          (''booths'', JStr (join ''; '' (map strip_randomstring (filter (\<lambda>b. b \<noteq> []) bs)))),
          (''hall'', JStr (join ''; '' hs)),
          (''description'', field_or_empty fs ''exhdesc_t''),
          (''seeking_funding'', field_or_empty fs ''seekfunding_t''),
          (''funding_amount'', field_or_empty fs ''fundingamount_t''),
          (''investment_stage'', field_or_empty fs ''investmentstage_l''),
          (''revenue'', field_or_empty fs ''revenue_t''),
          (''logo_file'', field_or_empty fs ''exhlogo_t''),
          (''featured'', field_or_empty fs ''exhfeatured_t''),
          (''tags'', JStr (join ''; '' (if t1 \<noteq> [] then t1 else t2)))]"
  unfolding hit_to_row_def
  by (simp add: record_fields_get[OF assms(1)] field_or_none_list[OF assms(2)]
      field_or_none_list[OF assms(3)] tags_choice[OF assms(4) assms(5)]
      clean_booths_strs py_join_strs del: py_iter.simps)

lemma filter_clean_same:
  "list_all (\<lambda>b. b = [] \<or> strip_randomstring b \<noteq> []) bs \<Longrightarrow>
     filter (\<lambda>b. b \<noteq> []) (map strip_randomstring bs)
       = map strip_randomstring (filter (\<lambda>b. b \<noteq> []) bs)"
  by (induction bs) (auto simp: strip_randomstring_def py_strip_def)

lemma booths_of_row:
  assumes "record_fields hit = Some fs" "list_field fs ''boothsdisplay_la'' = Some bs"
    and "hit_to_row hit = Inr row"
  shows "map_of row ''booths''
           = Some (JStr (join ''; '' (map strip_randomstring (filter (\<lambda>b. b \<noteq> []) bs))))"
  using assms(3) unfolding hit_to_row_def
  by (auto simp: record_fields_get[OF assms(1)] field_or_none_list[OF assms(2)] clean_booths_strs
      simp del: py_iter.simps split: sum.splits)

lemma tags_of_row:
  assumes "record_fields hit = Some fs"
    and "list_field fs ''exhtags_la'' = Some t1" "list_field fs ''tags'' = Some t2"
    and "hit_to_row hit = Inr row"
  shows "map_of row ''tags'' = Some (JStr (join ''; '' (if t1 \<noteq> [] then t1 else t2)))"
  using assms(4) unfolding hit_to_row_def
  by (auto simp: record_fields_get[OF assms(1)] tags_choice[OF assms(2) assms(3)] py_join_strs
      simp del: py_iter.simps split: sum.splits)

lemma booth_example_fields:
  "record_fields booth_example
     = Some [(''boothsdisplay_la'', JArr [JStr ''Hall A-123randomstring'', JStr ''  B-45  ''])]"
  by (simp add: booth_example_def record_fields_def)

lemma clean_examples:
  "strip_randomstring ''Hall A-123randomstring'' = ''Hall A-123''"
  "strip_randomstring ''  B-45  '' = ''B-45''"
  "strip_randomstring ''A'' = ''A''"
  "strip_randomstring ''B'' = ''B''"
  "strip_randomstring ''randomstring'' = []"
  by (simp_all add: strip_randomstring_def py_strip_def is_space_def)

text \<open>
  C3, as the code has it. For every record whose booth-display field is a list of strings
  (or absent, which counts as the empty list) and which \<open>hit_to_row\<close> flattens, the booths
  column is the join with \<open>"; "\<close> of the cleaned entries, taken over the entries that are
  non-empty before the cleanup: an entry that only the cleanup empties stays in the join as
  an empty string. Where no such entry exists, this is the join that the specification
  words.
\<close>

theorem booths_rule:
  assumes "record_fields hit = Some fs"
    and "list_field fs ''boothsdisplay_la'' = Some bs"
    and "hit_to_row hit = Inr row"
  shows "map_of row ''booths''
           = Some (JStr (join ''; '' (map strip_randomstring (filter (\<lambda>b. b \<noteq> []) bs))))
         \<and> (list_all (\<lambda>b. b = [] \<or> strip_randomstring b \<noteq> []) bs \<longrightarrow>
              map_of row ''booths'' = Some (JStr (booths_as_stated bs)))"
  using booths_of_row[OF assms] by (simp add: booths_as_stated_def filter_clean_same)

theorem booths_rule_witness:
  "record_fields booth_example
     = Some [(''boothsdisplay_la'', JArr [JStr ''Hall A-123randomstring'', JStr ''  B-45  ''])]
   \<and> list_field [(''boothsdisplay_la'', JArr [JStr ''Hall A-123randomstring'', JStr ''  B-45  ''])]
        ''boothsdisplay_la'' = Some [''Hall A-123randomstring'', ''  B-45  '']
   \<and> map_of (projr (hit_to_row booth_example)) ''booths'' = Some (JStr ''Hall A-123; B-45'')
   \<and> booths_as_stated [''Hall A-123randomstring'', ''  B-45  ''] = ''Hall A-123; B-45''"
proof -
  let ?fs = "[(''boothsdisplay_la'', JArr [JStr ''Hall A-123randomstring'', JStr ''  B-45  ''])]"
  have f: "record_fields booth_example = Some ?fs"
    by (rule booth_example_fields)
  have l: "list_field ?fs ''boothsdisplay_la'' = Some [''Hall A-123randomstring'', ''  B-45  '']"
    by (simp add: list_field_def)
  have l': "list_field ?fs k = Some []" if "k \<noteq> ''boothsdisplay_la''" for k
    using that by (simp add: list_field_def)
  have r: "hit_to_row booth_example = Inr (projr (hit_to_row booth_example))"
    by (simp add: hit_to_row_typed[OF f l l' l' l'])
  have c: "list_all (\<lambda>b. b = [] \<or> strip_randomstring b \<noteq> [])
             [''Hall A-123randomstring'', ''  B-45  '']"
    by (simp add: clean_examples)
  from booths_rule[OF f l r] c f l show ?thesis
    by (simp add: clean_examples booths_as_stated_def)
qed

text \<open>
  C3 as worded fails on an entry that consists of the marker: the code keeps it as an
  empty string between two separators, the wording leaves it out.
\<close>

theorem booths_counterexample:
  "map_of (projr (hit_to_row marker_only_example)) ''booths'' = Some (JStr ''A; ; B'')
   \<and> isl (hit_to_row marker_only_example) = False
   \<and> booths_as_stated [''A'', ''randomstring'', ''B''] = ''A; B''"
proof -
  let ?fs = "[(''boothsdisplay_la'', JArr [JStr ''A'', JStr ''randomstring'', JStr ''B''])]"
  have f: "record_fields marker_only_example = Some ?fs"
    by (simp add: marker_only_example_def record_fields_def)
  have l: "list_field ?fs ''boothsdisplay_la'' = Some [''A'', ''randomstring'', ''B'']"
    by (simp add: list_field_def)
  have l': "list_field ?fs k = Some []" if "k \<noteq> ''boothsdisplay_la''" for k
    using that by (simp add: list_field_def)
  show ?thesis
    by (simp add: hit_to_row_typed[OF f l l' l' l'] booths_as_stated_def clean_examples)
qed

text \<open>
  C5, as the code has it. For every record whose two tag fields are lists of strings (or
  absent) and which \<open>hit_to_row\<close> flattens, the tags column is the join with \<open>"; "\<close> of
  the \<open>exhtags_la\<close> list when that list is non-empty, and otherwise of the \<open>tags\<close> list:
  a present but empty \<open>exhtags_la\<close> gives way to \<open>tags\<close>.
\<close>

theorem tags_rule:
  assumes "record_fields hit = Some fs"
    and "list_field fs ''exhtags_la'' = Some t1"
    and "list_field fs ''tags'' = Some t2"
    and "hit_to_row hit = Inr row"
  shows "map_of row ''tags'' = Some (JStr (join ''; '' (if t1 \<noteq> [] then t1 else t2)))"
  by (rule tags_of_row[OF assms])

theorem tags_rule_witness:
  "record_fields empty_tags_example = Some [(''exhtags_la'', JArr []), (''tags'', JArr [JStr ''x''])]
   \<and> list_field [(''exhtags_la'', JArr []), (''tags'', JArr [JStr ''x''])] ''exhtags_la'' = Some []
   \<and> list_field [(''exhtags_la'', JArr []), (''tags'', JArr [JStr ''x''])] ''tags'' = Some [''x'']
   \<and> isl (hit_to_row empty_tags_example) = False
   \<and> map_of (projr (hit_to_row empty_tags_example)) ''tags'' = Some (JStr ''x'')"
proof -
  let ?fs = "[(''exhtags_la'', JArr []), (''tags'', JArr [JStr ''x''])]"
  have f: "record_fields empty_tags_example = Some ?fs"
    by (simp add: empty_tags_example_def record_fields_def)
  have l1: "list_field ?fs ''exhtags_la'' = Some []" and l2: "list_field ?fs ''tags'' = Some [''x'']"
    and l3: "list_field ?fs ''boothsdisplay_la'' = Some []"
    and l4: "list_field ?fs ''hallid_la'' = Some []"
    by (simp_all add: list_field_def)
  have r: "hit_to_row empty_tags_example = Inr (projr (hit_to_row empty_tags_example))"
    by (simp add: hit_to_row_typed[OF f l3 l4 l1 l2])
  have nl: "isl (hit_to_row empty_tags_example) = False"
    by (simp add: hit_to_row_typed[OF f l3 l4 l1 l2])
  from tags_rule[OF f l1 l2 r] f l1 l2 nl show ?thesis
    by simp
qed

text \<open>
  C5 as worded fails on a record whose \<open>exhtags_la\<close> is present and empty while \<open>tags\<close>
  is not empty: the wording gives the empty string, the code the tags.
\<close>

theorem tags_counterexample:
  "map_of (projr (hit_to_row empty_tags_example)) ''tags'' = Some (JStr ''x'')
   \<and> isl (hit_to_row empty_tags_example) = False
   \<and> tags_as_stated [(''exhtags_la'', JArr []), (''tags'', JArr [JStr ''x''])] = Some []"
proof -
  let ?fs = "[(''exhtags_la'', JArr []), (''tags'', JArr [JStr ''x''])]"
  have f: "record_fields empty_tags_example = Some ?fs"
    by (simp add: empty_tags_example_def record_fields_def)
  have l1: "list_field ?fs ''exhtags_la'' = Some []" and l2: "list_field ?fs ''tags'' = Some [''x'']"
    and l3: "list_field ?fs ''boothsdisplay_la'' = Some []"
    and l4: "list_field ?fs ''hallid_la'' = Some []"
    by (simp_all add: list_field_def)
  show ?thesis
    by (simp add: hit_to_row_typed[OF f l3 l4 l1 l2] tags_as_stated_def)
qed

text \<open>On a Record every list-valued field can be iterated and yields strings.\<close>

lemma record_field_ok:
  assumes "is_record hit" "record_fields hit = Some fs"
  shows "case map_of fs k of None \<Rightarrow> True | Some v \<Rightarrow> field_ok v"
proof (cases "map_of fs k")
  case None
  then show ?thesis by simp
next
  case (Some v)
  then have "k \<in> set (map fst fs)"
    by (metis map_of_SomeD image_eqI fst_conv set_map)
  then show ?thesis
    using assms by (auto simp: is_record_def list_all_iff)
qed

lemma iter_field_ok:
  assumes "case map_of fs k of None \<Rightarrow> True | Some v \<Rightarrow> field_ok v"
  shows "\<exists>items. py_iter (py_or (field_or_none fs k) (JArr [])) = Inr items
           \<and> list_all is_str items \<and> (map_of fs k = None \<longrightarrow> items = [])"
proof (cases "map_of fs k")
  case None
  then show ?thesis by (simp add: field_or_none_def py_or_def)
next
  case (Some v)
  then have "field_ok v" using assms by simp
  then show ?thesis using Some
    by (cases v) (auto simp: field_or_none_def py_or_def list_all_iff)
qed

lemma iter_field_okE:
  assumes "case map_of fs k of None \<Rightarrow> True | Some v \<Rightarrow> field_ok v"
  obtains items where "py_iter (py_or (field_or_none fs k) (JArr [])) = Inr items"
    "list_all is_str items" "map_of fs k = None \<longrightarrow> items = []"
  using iter_field_ok[OF assms] by (elim exE conjE)

lemma iter_tags_ok:
  assumes "case map_of fs k1 of None \<Rightarrow> True | Some v \<Rightarrow> field_ok v"
    and "case map_of fs k2 of None \<Rightarrow> True | Some v \<Rightarrow> field_ok v"
  shows "\<exists>items. py_iter (py_or (field_or_none fs k1) (py_or (field_or_none fs k2) (JArr [])))
             = Inr items
           \<and> list_all is_str items
           \<and> (map_of fs k1 = None \<and> map_of fs k2 = None \<longrightarrow> items = [])"
proof (cases "truthy (field_or_none fs k1)")
  case True
  then have "map_of fs k1 \<noteq> None" by (cases "map_of fs k1") (auto simp: field_or_none_def)
  moreover have "py_or (field_or_none fs k1) (py_or (field_or_none fs k2) (JArr []))
               = py_or (field_or_none fs k1) (JArr [])"
    using True by (simp add: py_or_def)
  ultimately show ?thesis using iter_field_ok[OF assms(1)] by auto
next
  case False
  then have "py_or (field_or_none fs k1) (py_or (field_or_none fs k2) (JArr []))
               = py_or (field_or_none fs k2) (JArr [])"
    by (simp add: py_or_def)
  then show ?thesis using iter_field_ok[OF assms(2)] by auto
qed

lemma iter_tags_okE:
  assumes "case map_of fs k1 of None \<Rightarrow> True | Some v \<Rightarrow> field_ok v"
    and "case map_of fs k2 of None \<Rightarrow> True | Some v \<Rightarrow> field_ok v"
  obtains items where
    "py_iter (py_or (field_or_none fs k1) (py_or (field_or_none fs k2) (JArr []))) = Inr items"
    "list_all is_str items" "map_of fs k1 = None \<and> map_of fs k2 = None \<longrightarrow> items = []"
  using iter_tags_ok[OF assms] by (elim exE conjE)

lemma clean_booths_ok: "list_all is_str items \<Longrightarrow> \<exists>ss. clean_booths items = Inr ss"
proof (induction items)
  case Nil
  then show ?case by simp
next
  case (Cons b bs)
  then obtain s where "b = JStr s" by (cases b) auto
  then show ?case using Cons by auto
qed

lemma py_join_ok: "list_all is_str items \<Longrightarrow> py_join sep items = Inr (join sep (map str_of items))"
  by (simp add: py_join_def)

lemma hit_to_row_record:
  assumes "is_record hit" "record_fields hit = Some fs"
  obtains b h t where "hit_to_row hit =
     Inr [(''exhibitor_id'', field_or_empty fs ''exhid_l''),
          (''name'', field_or_empty fs ''exhname_t''),
          (''booths'', JStr b),
          (''hall'', JStr h),
          (''description'', field_or_empty fs ''exhdesc_t''),
          (''seeking_funding'', field_or_empty fs ''seekfunding_t''),
          (''funding_amount'', field_or_empty fs ''fundingamount_t''),
          (''investment_stage'', field_or_empty fs ''investmentstage_l''),
          (''revenue'', field_or_empty fs ''revenue_t''),
          (''logo_file'', field_or_empty fs ''exhlogo_t''),
          (''featured'', field_or_empty fs ''exhfeatured_t''),
          (''tags'', JStr t)]"
     "map_of fs ''boothsdisplay_la'' = None \<longrightarrow> b = []"
     "map_of fs ''hallid_la'' = None \<longrightarrow> h = []"
     "map_of fs ''exhtags_la'' = None \<and> map_of fs ''tags'' = None \<longrightarrow> t = []"
proof -
  have ok: "case map_of fs k of None \<Rightarrow> True | Some v \<Rightarrow> field_ok v" for k
    by (rule record_field_ok[OF assms])
  obtain bi where
    bi: "py_iter (py_or (field_or_none fs ''boothsdisplay_la'') (JArr [])) = Inr bi"
    "list_all is_str bi" "map_of fs ''boothsdisplay_la'' = None \<longrightarrow> bi = []"
    by (rule iter_field_okE[where fs = fs and k = "''boothsdisplay_la''", OF ok])
  obtain cleaned where c: "clean_booths bi = Inr cleaned"
    using clean_booths_ok[OF bi(2)] by (elim exE)
  have c0: "bi = [] \<Longrightarrow> cleaned = []" using c by simp
  obtain hi where
    hi: "py_iter (py_or (field_or_none fs ''hallid_la'') (JArr [])) = Inr hi"
    "list_all is_str hi" "map_of fs ''hallid_la'' = None \<longrightarrow> hi = []"
    by (rule iter_field_okE[where fs = fs and k = "''hallid_la''", OF ok])
  obtain ti where
    ti: "py_iter (py_or (field_or_none fs ''exhtags_la'')
           (py_or (field_or_none fs ''tags'') (JArr []))) = Inr ti"
    "list_all is_str ti" "map_of fs ''exhtags_la'' = None \<and> map_of fs ''tags'' = None \<longrightarrow> ti = []"
    by (rule iter_tags_okE[where fs = fs and ?k1.0 = "''exhtags_la''" and ?k2.0 = "''tags''",
          OF ok ok])
  have "hit_to_row hit =
     Inr [(''exhibitor_id'', field_or_empty fs ''exhid_l''),
          (''name'', field_or_empty fs ''exhname_t''),
          (''booths'', JStr (join ''; '' cleaned)),
          (''hall'', JStr (join ''; '' (map str_of hi))),
          (''description'', field_or_empty fs ''exhdesc_t''),
          (''seeking_funding'', field_or_empty fs ''seekfunding_t''),
          (''funding_amount'', field_or_empty fs ''fundingamount_t''),
          (''investment_stage'', field_or_empty fs ''investmentstage_l''),
          (''revenue'', field_or_empty fs ''revenue_t''),
          (''logo_file'', field_or_empty fs ''exhlogo_t''),
          (''featured'', field_or_empty fs ''exhfeatured_t''),
          (''tags'', JStr (join ''; '' (map str_of ti)))]"
    unfolding hit_to_row_def
    by (simp add: record_fields_get[OF assms(2)] bi(1) c hi(1) ti(1) py_join_ok[OF hi(2)]
        py_join_ok[OF ti(2)] del: py_iter.simps)
  moreover have "map_of fs ''boothsdisplay_la'' = None \<longrightarrow> join ''; '' cleaned = []"
    using bi(3) c0 by auto
  moreover have "map_of fs ''hallid_la'' = None \<longrightarrow> join ''; '' (map str_of hi) = []"
    using hi(3) by auto
  moreover have "map_of fs ''exhtags_la'' = None \<and> map_of fs ''tags'' = None
                   \<longrightarrow> join ''; '' (map str_of ti) = []"
    using ti(3) by auto
  ultimately show ?thesis by (rule that)
qed

text \<open>
  C8, as the code has it. For every Record of the data model (each field absent, a string
  or a list of strings), \<open>hit_to_row\<close> raises nothing and returns a row of exactly twelve
  fields, named and ordered as the column names are, none omitted, in which every column
  whose source fields are all absent holds the empty string. The booths, hall and tags
  columns hold strings. Each of the other nine columns holds the value of its source field
  as it is, so the row consists of strings exactly when these nine source fields are
  strings or absent.
\<close>

theorem hit_to_row_total:
  assumes "is_record hit"
  shows "\<exists>row fs. hit_to_row hit = Inr row \<and> record_fields hit = Some fs
           \<and> map fst row = fieldnames \<and> length row = 12
           \<and> list_all (\<lambda>(col, srcs). list_all (\<lambda>src. map_of fs src = None) srcs
                          \<longrightarrow> map_of row col = Some (JStr [])) column_sources
           \<and> list_all (\<lambda>col. case map_of row col of None \<Rightarrow> False | Some v \<Rightarrow> is_str v)
                [''booths'', ''hall'', ''tags'']
           \<and> list_all (\<lambda>(col, src). map_of row col = Some (field_or_empty fs src)) scalar_columns
           \<and> (list_all (\<lambda>(k, v). is_str v) row
                \<longleftrightarrow> list_all (\<lambda>(col, src). is_str (field_or_empty fs src)) scalar_columns)"
proof -
  from assms obtain fs where f: "record_fields hit = Some fs"
    by (auto simp: is_record_def split: option.splits)
  obtain b h t where
    typed: "hit_to_row hit =
     Inr [(''exhibitor_id'', field_or_empty fs ''exhid_l''),
          (''name'', field_or_empty fs ''exhname_t''),
          (''booths'', JStr b),
          (''hall'', JStr h),
          (''description'', field_or_empty fs ''exhdesc_t''),
          (''seeking_funding'', field_or_empty fs ''seekfunding_t''),
          (''funding_amount'', field_or_empty fs ''fundingamount_t''),
          (''investment_stage'', field_or_empty fs ''investmentstage_l''),
          (''revenue'', field_or_empty fs ''revenue_t''),
          (''logo_file'', field_or_empty fs ''exhlogo_t''),
          (''featured'', field_or_empty fs ''exhfeatured_t''),
          (''tags'', JStr t)]"
    and none: "map_of fs ''boothsdisplay_la'' = None \<longrightarrow> b = []"
      "map_of fs ''hallid_la'' = None \<longrightarrow> h = []"
      "map_of fs ''exhtags_la'' = None \<and> map_of fs ''tags'' = None \<longrightarrow> t = []"
    by (rule hit_to_row_record[OF assms f])
  define row where "row = projr (hit_to_row hit)"
  have row: "hit_to_row hit = Inr row"
    unfolding row_def typed by simp
  have absent: "map_of fs k = None \<Longrightarrow> field_or_empty fs k = JStr []" for k
    by (simp add: field_or_empty_def)
  have names: "map fst row = fieldnames"
    unfolding row_def typed by (simp add: fieldnames_def)
  have twelve: "length row = 12"
    unfolding row_def typed by simp
  have empties: "list_all (\<lambda>(col, srcs). list_all (\<lambda>src. map_of fs src = None) srcs
                   \<longrightarrow> map_of row col = Some (JStr [])) column_sources"
    unfolding row_def typed using none by (auto simp: column_sources_def absent)
  have joined: "list_all (\<lambda>col. case map_of row col of None \<Rightarrow> False | Some v \<Rightarrow> is_str v)
                [''booths'', ''hall'', ''tags'']"
    unfolding row_def typed by simp
  have passed: "list_all (\<lambda>(col, src). map_of row col = Some (field_or_empty fs src)) scalar_columns"
    unfolding row_def typed by (simp add: scalar_columns_def)
  have strings: "list_all (\<lambda>(k, v). is_str v) row
                \<longleftrightarrow> list_all (\<lambda>(col, src). is_str (field_or_empty fs src)) scalar_columns"
    unfolding row_def typed by (auto simp: scalar_columns_def)
  from row f names twelve empties joined passed strings show ?thesis
    by (intro exI conjI)
qed

theorem hit_to_row_total_witness:
  "is_record booth_example
   \<and> hit_to_row booth_example =
       Inr [(''exhibitor_id'', JStr []), (''name'', JStr []),
            (''booths'', JStr ''Hall A-123; B-45''),
            (''hall'', JStr []), (''description'', JStr []), (''seeking_funding'', JStr []),
            (''funding_amount'', JStr []), (''investment_stage'', JStr []),
            (''revenue'', JStr []), (''logo_file'', JStr []), (''featured'', JStr []),
            (''tags'', JStr [])]"
proof -
  let ?fs = "[(''boothsdisplay_la'', JArr [JStr ''Hall A-123randomstring'', JStr ''  B-45  ''])]"
  have f: "record_fields booth_example = Some ?fs"
    by (rule booth_example_fields)
  have r: "is_record booth_example"
    by (simp add: is_record_def f)
  from hit_to_row_total[OF r] obtain row where row: "hit_to_row booth_example = Inr row"
    by blast
  have l: "list_field ?fs ''boothsdisplay_la'' = Some [''Hall A-123randomstring'', ''  B-45  '']"
    "list_field ?fs ''hallid_la'' = Some []"
    "list_field ?fs ''exhtags_la'' = Some []" "list_field ?fs ''tags'' = Some []"
    by (simp_all add: list_field_def)
  show ?thesis
    using r row by (simp add: hit_to_row_typed[OF f l] field_or_empty_def clean_examples)
qed

text \<open>
  C8 as worded fails on a Record whose name field is a list of strings: the row is
  returned with that list, not a string, as its name.
\<close>

theorem hit_to_row_total_counterexample:
  "is_record list_name_example
   \<and> hit_to_row list_name_example =
       Inr [(''exhibitor_id'', JStr []), (''name'', JArr [JStr ''a'', JStr ''b'']),
            (''booths'', JStr []), (''hall'', JStr []), (''description'', JStr []),
            (''seeking_funding'', JStr []), (''funding_amount'', JStr []),
            (''investment_stage'', JStr []), (''revenue'', JStr []), (''logo_file'', JStr []),
            (''featured'', JStr []), (''tags'', JStr [])]
   \<and> \<not> is_str (JArr [JStr ''a'', JStr ''b''])"
proof -
  let ?fs = "[(''exhname_t'', JArr [JStr ''a'', JStr ''b''])]"
  have f: "record_fields list_name_example = Some ?fs"
    by (simp add: list_name_example_def record_fields_def)
  have r: "is_record list_name_example"
    by (simp add: is_record_def f)
  have l: "list_field ?fs ''boothsdisplay_la'' = Some []" "list_field ?fs ''hallid_la'' = Some []"
    "list_field ?fs ''exhtags_la'' = Some []" "list_field ?fs ''tags'' = Some []"
    by (simp_all add: list_field_def)
  show ?thesis
    using r by (simp add: hit_to_row_typed[OF f l] field_or_empty_def)
qed

section \<open>Running the loop\<close>

lemma while_true_Stop: "body st = Stop r st' \<Longrightarrow> while_true body st = Some (r, st')"
  by (subst while_true.simps) simp

lemma while_true_Next: "body st = Next st' \<Longrightarrow> while_true body st = while_true body st'"
  by (subst while_true.simps) simp

lemma after_pages_loop:
  "after_pages body n st = Some st' \<Longrightarrow> while_true body st = while_true body st'"
proof (induction n arbitrary: st)
  case 0
  then show ?case by simp
next
  case (Suc n)
  then show ?case
    by (cases "body st") (auto simp: while_true_Next)
qed

lemma after_pages_Suc_end:
  "after_pages body n st = Some st1 \<Longrightarrow> body st1 = Next st2
     \<Longrightarrow> after_pages body (Suc n) st = Some st2"
proof (induction n arbitrary: st)
  case 0
  then show ?case by simp
next
  case (Suc n)
  then show ?case
    by (cases "body st") auto
qed

text \<open>A run that comes back left the loop in some iteration.\<close>

lemma while_true_result_aux:
  assumes "while_true body st = Some y"
  shows "\<exists>n st1. after_pages body n st = Some st1 \<and> body st1 = Stop (fst y) (snd y)"
proof (rule while_true.raw_induct[where P = "\<lambda>body st y.
    \<exists>n st1. after_pages body n st = Some st1 \<and> body st1 = Stop (fst y) (snd y)", OF _ assms])
  fix loop :: "('a loop_state \<Rightarrow> 'a outcome) \<Rightarrow> 'a loop_state
      \<Rightarrow> ((error + json list) \<times> 'a loop_state) option"
    and body st y
  assume IH: "\<And>b s z. loop b s = Some z \<Longrightarrow>
      \<exists>n st1. after_pages b n s = Some st1 \<and> b st1 = Stop (fst z) (snd z)"
    and unfold: "(case body st of Next st' \<Rightarrow> loop body st' | Stop r st' \<Rightarrow> Some (r, st')) = Some y"
  show "\<exists>n st1. after_pages body n st = Some st1 \<and> body st1 = Stop (fst y) (snd y)"
  proof (cases "body st")
    case (Next st2)
    with unfold have "loop body st2 = Some y" by simp
    then obtain n st1 where "after_pages body n st2 = Some st1" "body st1 = Stop (fst y) (snd y)"
      using IH by blast
    then have "after_pages body (Suc n) st = Some st1" using Next by simp
    then show ?thesis using \<open>body st1 = Stop (fst y) (snd y)\<close> by blast
  next
    case (Stop r1 st1)
    with unfold have "y = (r1, st1)" by simp
    then have "after_pages body 0 st = Some st" "body st = Stop (fst y) (snd y)"
      using Stop by simp_all
    then show ?thesis by blast
  qed
qed

lemma while_true_result:
  "while_true body st = Some (r, st') \<Longrightarrow>
     \<exists>n st1. after_pages body n st = Some st1 \<and> body st1 = Stop r st'"
  using while_true_result_aux[of body st "(r, st')"] by simp

section \<open>One iteration\<close>

lemma py_iter_truthy: "py_iter b = Inr items \<Longrightarrow> truthy b \<longleftrightarrow> items \<noteq> []"
proof (cases b)
  case (JObj kvs)
  assume "py_iter b = Inr items"
  then show ?thesis using JObj by (cases kvs) auto
qed auto

text \<open>What an iteration does when the page it reads raises nothing.\<close>

lemma fetch_step_page:
  assumes "page_at g kw ps ty sh st = Some (items, m)"
  shows "\<exists>st2. hits st2 = hits st @ items
          \<and> start st2 = start st + int (length items)
          \<and> sent st2 = sent st @ [search_params kw ps ty sh (start st)]
          \<and> server st2 = snd (g (server st) (search_params kw ps ty sh (start st)))
          \<and> int_value (total st2) = Some m
          \<and> py_iter (batch st2) = Inr items
          \<and> fetch_step g kw ps ty sh st =
               (if start st + int (length items) \<ge> m \<or> items = []
                then Stop (Inr (hits st @ items)) st2 else Next st2)"
  using assms unfolding page_at_def fetch_step_def take_page_def Let_def py_ge_def
  by (auto split: response.splits sum.splits option.splits simp: py_iter_truthy)

lemma fetch_step_sent:
  "fetch_step g kw ps ty sh st = Next st2 \<Longrightarrow>
     sent st2 = sent st @ [search_params kw ps ty sh (start st)]"
  "fetch_step g kw ps ty sh st = Stop r st2 \<Longrightarrow>
     sent st2 = sent st @ [search_params kw ps ty sh (start st)]"
  unfolding fetch_step_def Let_def
  by (auto split: response.splits sum.splits prod.splits if_splits)

lemma fetch_step_invariant:
  "fetch_step g kw ps ty sh st = Next st2 \<Longrightarrow> start st = int (length (hits st))
     \<Longrightarrow> start st2 = int (length (hits st2))"
  unfolding fetch_step_def Let_def take_page_def
  by (auto split: response.splits sum.splits prod.splits if_splits)

lemma after_pages_sent:
  "after_pages (fetch_step g kw ps ty sh) n st = Some st'
     \<Longrightarrow> length (sent st') = length (sent st) + n"
proof (induction n arbitrary: st)
  case 0
  then show ?case by simp
next
  case (Suc n)
  then show ?case
    by (cases "fetch_step g kw ps ty sh st") (auto dest!: fetch_step_sent(1))
qed

lemma after_pages_invariant:
  "after_pages (fetch_step g kw ps ty sh) n st = Some st'
     \<Longrightarrow> start st = int (length (hits st)) \<Longrightarrow> start st' = int (length (hits st'))"
proof (induction n arbitrary: st)
  case 0
  then show ?case by simp
next
  case (Suc n)
  then show ?case
    by (cases "fetch_step g kw ps ty sh st") (auto dest: fetch_step_invariant)
qed

lemma initial_state_simps:
  "server (initial_state s) = s" "sent (initial_state s) = []" "hits (initial_state s) = []"
  "start (initial_state s) = 0"
  by (simp_all add: initial_state_def)

text \<open>A run that gets past iteration \<open>n\<close> sends more than \<open>n + 1\<close> requests, if it ends.\<close>

lemma run_after_sent:
  assumes "after_pages (fetch_step g kw ps ty sh) n (initial_state s) = Some st"
    and "fetch_exhibitors g s kw ps ty sh = Some (r, st')"
  shows "length (sent st') > n"
proof -
  have "while_true (fetch_step g kw ps ty sh) st = Some (r, st')"
    using assms after_pages_loop[OF assms(1)] by (simp add: fetch_exhibitors_def)
  then obtain k st1 where k: "after_pages (fetch_step g kw ps ty sh) k st = Some st1"
    and stop: "fetch_step g kw ps ty sh st1 = Stop r st'"
    using while_true_result by blast
  have "length (sent st1) = length (sent st) + k"
    by (rule after_pages_sent[OF k])
  moreover have "length (sent st) = n"
    using after_pages_sent[OF assms(1)] by (simp add: initial_state_simps)
  moreover have "length (sent st') = Suc (length (sent st1))"
    using fetch_step_sent(2)[OF stop] by simp
  ultimately show ?thesis by simp
qed

lemmas run_defs =
  fetch_step_def find_result_def take_page_def py_ge_def search_params_def Let_def
  paging_server_def page_payload_def requested_start_def requested_size_def
  scripted_server_def

section \<open>Leaving the loop\<close>

text \<open>An iteration that leaves the loop with a result has read a page that raised nothing.\<close>

lemma fetch_step_returns:
  assumes "fetch_step g kw ps ty sh st = Stop (Inr hs) st'"
  shows "\<exists>items m. page_at g kw ps ty sh st = Some (items, m)
          \<and> hs = hits st @ items \<and> hits st' = hs
          \<and> start st' = start st + int (length items)
          \<and> int_value (total st') = Some m
          \<and> py_iter (batch st') = Inr items
          \<and> (start st + int (length items) \<ge> m \<or> items = [])"
  using assms unfolding page_at_def fetch_step_def take_page_def Let_def py_ge_def
  by (auto split: response.splits sum.splits option.splits if_splits simp: py_iter_truthy)

lemma run_stops:
  assumes "after_pages (fetch_step g kw ps ty sh) n (initial_state s) = Some st"
    and "fetch_step g kw ps ty sh st = Stop r st'"
  shows "fetch_exhibitors g s kw ps ty sh = Some (r, st')" "length (sent st') = Suc n"
proof -
  show "fetch_exhibitors g s kw ps ty sh = Some (r, st')"
    unfolding fetch_exhibitors_def
    using after_pages_loop[OF assms(1)]
      while_true_Stop[of "fetch_step g kw ps ty sh" st r st', OF assms(2)] by simp
  have "length (sent st) = n"
    using after_pages_sent[OF assms(1)] by (simp add: initial_state_simps)
  then show "length (sent st') = Suc n"
    using fetch_step_sent(2)[OF assms(2)] by simp
qed

lemma run_invariant:
  "after_pages (fetch_step g kw ps ty sh) n (initial_state s) = Some st
     \<Longrightarrow> start st = int (length (hits st))"
  by (erule after_pages_invariant) (simp add: initial_state_simps)

text \<open>
  C1, as the code has it. For every run of \<open>fetch_exhibitors\<close> that completes without
  error, the list returned is the accumulated one, the final offset is its length, and
  that length is at least the total of the last page read (the found count that the server
  reported on it, or by default the number of records accumulated), or the last page held
  no records. The length equals the total, or the last page held no records, when the last
  page did not carry the offset beyond the total.
\<close>

theorem accumulated_length:
  assumes "fetch_exhibitors g s kw ps ty sh = Some (Inr hs, st')"
  shows "\<exists>n st items m.
           after_pages (fetch_step g kw ps ty sh) n (initial_state s) = Some st
           \<and> page_at g kw ps ty sh st = Some (items, m)
           \<and> hs = hits st @ items \<and> hits st' = hs \<and> start st' = int (length hs)
           \<and> int_value (total st') = Some m
           \<and> (int (length hs) \<ge> m \<or> items = [])
           \<and> (int (length hs) \<le> m \<longrightarrow> int (length hs) = m \<or> items = [])"
proof -
  from assms obtain n st where reach: "after_pages (fetch_step g kw ps ty sh) n (initial_state s) = Some st"
    and stop: "fetch_step g kw ps ty sh st = Stop (Inr hs) st'"
    unfolding fetch_exhibitors_def using while_true_result by blast
  from fetch_step_returns[OF stop] obtain items m where
    page: "page_at g kw ps ty sh st = Some (items, m)"
    and hs: "hs = hits st @ items" "hits st' = hs"
    and off: "start st' = start st + int (length items)"
    and tot: "int_value (total st') = Some m"
    and left: "start st + int (length items) \<ge> m \<or> items = []"
    by blast
  have inv: "start st = int (length (hits st))"
    by (rule run_invariant[OF reach])
  have len: "int (length hs) = start st + int (length items)"
    using inv hs by simp
  have "start st' = int (length hs)" using off len by simp
  moreover have "int (length hs) \<ge> m \<or> items = []" using left len by simp
  ultimately show ?thesis using reach page hs tot by fastforce
qed

lemma overshooting_run:
  "fetch_exhibitors overshooting_server () ''ai'' 200 ''keyword'' ''exhibitor'' =
     Some (Inr [name_only_example, booth_example], overshooting_final)"
  unfolding fetch_exhibitors_def
  by (rule while_true_Stop)
     (simp add: run_defs overshooting_server_def overshooting_final_def initial_state_def)

theorem accumulated_length_witness:
  "fetch_exhibitors overshooting_server () ''ai'' 200 ''keyword'' ''exhibitor'' =
     Some (Inr [name_only_example, booth_example], overshooting_final)
   \<and> (\<exists>n st items m.
         after_pages (fetch_step overshooting_server ''ai'' 200 ''keyword'' ''exhibitor'') n
           (initial_state ()) = Some st
         \<and> page_at overshooting_server ''ai'' 200 ''keyword'' ''exhibitor'' st = Some (items, m)
         \<and> [name_only_example, booth_example] = hits st @ items
         \<and> start overshooting_final = 2
         \<and> int_value (total overshooting_final) = Some m
         \<and> (2 \<ge> m \<or> items = []))"
proof -
  from accumulated_length[OF overshooting_run]
  have "\<exists>n st items m.
         after_pages (fetch_step overshooting_server ''ai'' 200 ''keyword'' ''exhibitor'') n
           (initial_state ()) = Some st
         \<and> page_at overshooting_server ''ai'' 200 ''keyword'' ''exhibitor'' st = Some (items, m)
         \<and> [name_only_example, booth_example] = hits st @ items
         \<and> start overshooting_final = 2
         \<and> int_value (total overshooting_final) = Some m
         \<and> (2 \<ge> m \<or> items = [])"
    by (auto simp: overshooting_final_def)
  with overshooting_run show ?thesis by (rule conjI)
qed

text \<open>
  C1 as worded fails on a server that reports a found count below the number of records
  that it returns: the run ends without error with two records, the count of its last page
  is one, and that page is not empty.
\<close>

theorem accumulated_length_counterexample:
  "fetch_exhibitors overshooting_server () ''ai'' 200 ''keyword'' ''exhibitor'' =
     Some (Inr [name_only_example, booth_example], overshooting_final)
   \<and> total overshooting_final = JNum 1
   \<and> int (length [name_only_example, booth_example]) \<noteq> 1
   \<and> truthy (batch overshooting_final)"
  using overshooting_run by (simp add: overshooting_final_def)

text \<open>
  C7. In a state that the loop reaches, on a page that raises nothing, the loop is left at
  this page, with the records accumulated and after one request for each page, exactly when
  the offset after the page has reached the total or the page holds no records; otherwise
  there is a next iteration, and a run that ends has sent further requests. In particular
  a page without records before the offset reaches the total ends the run at that page
  without error, with fewer records than the total.
\<close>

theorem pagination_stops_exactly:
  assumes "after_pages (fetch_step g kw ps ty sh) n (initial_state s) = Some st"
    and "page_at g kw ps ty sh st = Some (items, m)"
  shows "(start st + int (length items) \<ge> m \<or> items = [] \<longrightarrow>
            (\<exists>st'. fetch_exhibitors g s kw ps ty sh = Some (Inr (hits st @ items), st')
                   \<and> length (sent st') = Suc n))
         \<and> (\<not> (start st + int (length items) \<ge> m \<or> items = []) \<longrightarrow>
              (\<exists>st2. after_pages (fetch_step g kw ps ty sh) (Suc n) (initial_state s) = Some st2
                     \<and> hits st2 = hits st @ items \<and> start st2 = start st + int (length items))
              \<and> (\<forall>r st'. fetch_exhibitors g s kw ps ty sh = Some (r, st')
                     \<longrightarrow> length (sent st') > Suc n))
         \<and> (items = [] \<and> start st < m \<longrightarrow>
              (\<exists>st'. fetch_exhibitors g s kw ps ty sh = Some (Inr (hits st), st'))
              \<and> int (length (hits st)) < m)"
proof -
  from fetch_step_page[OF assms(2)] obtain st2 where
    h: "hits st2 = hits st @ items" and o: "start st2 = start st + int (length items)"
    and step: "fetch_step g kw ps ty sh st =
      (if start st + int (length items) \<ge> m \<or> items = []
       then Stop (Inr (hits st @ items)) st2 else Next st2)"
    by blast
  have inv: "start st = int (length (hits st))"
    by (rule run_invariant[OF assms(1)])
  have leave: "\<exists>st'. fetch_exhibitors g s kw ps ty sh = Some (Inr (hits st @ items), st')
                 \<and> length (sent st') = Suc n"
    if "start st + int (length items) \<ge> m \<or> items = []"
  proof -
    have "fetch_step g kw ps ty sh st = Stop (Inr (hits st @ items)) st2"
      using step that by simp
    from run_stops[OF assms(1) this] show ?thesis by blast
  qed
  have stay: "(\<exists>st2. after_pages (fetch_step g kw ps ty sh) (Suc n) (initial_state s) = Some st2
                     \<and> hits st2 = hits st @ items \<and> start st2 = start st + int (length items))
              \<and> (\<forall>r st'. fetch_exhibitors g s kw ps ty sh = Some (r, st')
                     \<longrightarrow> length (sent st') > Suc n)"
    if "\<not> (start st + int (length items) \<ge> m \<or> items = [])"
  proof -
    have "fetch_step g kw ps ty sh st = Next st2"
      using step that by simp
    then have n: "after_pages (fetch_step g kw ps ty sh) (Suc n) (initial_state s) = Some st2"
      by (rule after_pages_Suc_end[OF assms(1)])
    then show ?thesis using h o run_after_sent[OF n] by blast
  qed
  have early: "(\<exists>st'. fetch_exhibitors g s kw ps ty sh = Some (Inr (hits st), st'))
              \<and> int (length (hits st)) < m"
    if "items = [] \<and> start st < m"
    using leave that inv by auto
  from leave stay early show ?thesis by blast
qed

lemma stale_first_page:
  "after_pages (fetch_step stale_server ''ai'' 2 ''keyword'' ''exhibitor'') 1 (initial_state ())
     = Some stale_second"
  by (simp add: run_defs stale_server_def stale_second_def initial_state_def)

lemma stale_second_page:
  "page_at stale_server ''ai'' 2 ''keyword'' ''exhibitor'' stale_second = Some ([], 5)"
  by (simp add: page_at_def run_defs stale_server_def stale_second_def)

theorem pagination_stops_exactly_witness:
  "after_pages (fetch_step stale_server ''ai'' 2 ''keyword'' ''exhibitor'') 1 (initial_state ())
     = Some stale_second
   \<and> page_at stale_server ''ai'' 2 ''keyword'' ''exhibitor'' stale_second = Some ([], 5)
   \<and> start stale_second < 5
   \<and> (\<exists>st'. fetch_exhibitors stale_server () ''ai'' 2 ''keyword'' ''exhibitor''
               = Some (Inr [name_only_example, booth_example], st')
             \<and> length (sent st') = 2)
   \<and> int (length [name_only_example, booth_example]) < 5"
proof -
  have s: "start stale_second < 5" "hits stale_second = [name_only_example, booth_example]"
    by (simp_all add: stale_second_def)
  from pagination_stops_exactly[OF stale_first_page stale_second_page] s
  have "(\<exists>st'. fetch_exhibitors stale_server () ''ai'' 2 ''keyword'' ''exhibitor''
               = Some (Inr [name_only_example, booth_example], st')
             \<and> length (sent st') = 2)
        \<and> int (length [name_only_example, booth_example]) < 5"
    by (simp add: numeral_2_eq_2)
  with stale_first_page stale_second_page s(1) show ?thesis by blast
qed

text \<open>
  C10, as the code has it. In a state that the loop reaches, when the response is read as a
  success, its results section is a dictionary without a found count, and the hit entry of
  the section is absent or can be iterated (a list, a string or a dictionary), the
  total is the number of records accumulated with this page, which is what the offset is
  then, so the run ends at this page without error, with these records.
\<close>

theorem missing_found_ends:
  assumes "after_pages (fetch_step g kw ps ty sh) n (initial_state s) = Some st"
    and "fst (g (server st) (search_params kw ps ty sh (start st))) = Body payload"
    and "find_result sh payload = Inr (JObj kvs)"
    and "map_of kvs ''found'' = None"
    and "py_iter (case map_of kvs ''hit'' of None \<Rightarrow> JArr [] | Some b \<Rightarrow> b) = Inr items"
  shows "page_at g kw ps ty sh st = Some (items, int (length (hits st @ items)))
         \<and> start st + int (length items) = int (length (hits st @ items))
         \<and> (\<exists>st'. fetch_exhibitors g s kw ps ty sh = Some (Inr (hits st @ items), st')
                  \<and> total st' = JNum (int (length (hits st @ items)))
                  \<and> start st' = int (length (hits st @ items))
                  \<and> length (sent st') = Suc n)"
proof -
  have inv: "start st = int (length (hits st))"
    by (rule run_invariant[OF assms(1)])
  have page: "page_at g kw ps ty sh st = Some (items, int (length (hits st @ items)))"
    unfolding page_at_def using assms(2-5) by simp
  have off: "start st + int (length items) = int (length (hits st @ items))"
    using inv by simp
  have "\<exists>st2. fetch_step g kw ps ty sh st = Stop (Inr (hits st @ items)) st2
          \<and> total st2 = JNum (int (length (hits st @ items)))
          \<and> start st2 = int (length (hits st @ items))"
    using assms(2-5) inv unfolding fetch_step_def take_page_def Let_def py_ge_def
    by simp
  then obtain st2 where stop: "fetch_step g kw ps ty sh st = Stop (Inr (hits st @ items)) st2"
    and t: "total st2 = JNum (int (length (hits st @ items)))"
    and o: "start st2 = int (length (hits st @ items))"
    by blast
  from run_stops[OF assms(1) stop] page off t o show ?thesis by blast
qed

lemma scripted_first_page:
  "after_pages (fetch_step (scripted_server [Body first_of_five, r]) ''ai'' 200 ''keyword''
       ''exhibitor'') 1 (initial_state 0)
     = Some scripted_second"
  by (simp add: run_defs first_of_five_def scripted_second_def initial_state_def)

theorem missing_found_ends_witness:
  "after_pages (fetch_step (scripted_server [Body first_of_five, Body uncounted_payload])
       ''ai'' 200 ''keyword'' ''exhibitor'') 1 (initial_state 0)
     = Some scripted_second
   \<and> find_result ''exhibitor'' uncounted_payload = Inr (JObj [(''hit'', JArr [booth_example])])
   \<and> map_of [(''hit'', JArr [booth_example])] ''found'' = None
   \<and> (\<exists>st'. fetch_exhibitors (scripted_server [Body first_of_five, Body uncounted_payload]) 0
               ''ai'' 200 ''keyword'' ''exhibitor''
               = Some (Inr [name_only_example, booth_example], st')
             \<and> total st' = JNum 2 \<and> start st' = 2 \<and> length (sent st') = 2)"
proof -
  let ?g = "scripted_server [Body first_of_five, Body uncounted_payload]"
  note reach = scripted_first_page[of "Body uncounted_payload"]
  have resp: "fst (?g (server scripted_second)
                 (search_params ''ai'' 200 ''keyword'' ''exhibitor'' (start scripted_second)))
                = Body uncounted_payload"
    by (simp add: scripted_server_def scripted_second_def)
  have res: "find_result ''exhibitor'' uncounted_payload
               = Inr (JObj [(''hit'', JArr [booth_example])])"
    by (simp add: find_result_def uncounted_payload_def)
  have nofound: "map_of [(''hit'', JArr [booth_example])] ''found'' = None"
    by simp
  have iter: "py_iter (case map_of [(''hit'', JArr [booth_example])] ''hit'' of
                         None \<Rightarrow> JArr [] | Some b \<Rightarrow> b) = Inr [booth_example]"
    by simp
  have h: "hits scripted_second = [name_only_example]"
    by (simp add: scripted_second_def)
  from missing_found_ends[where g = ?g and st = scripted_second,
      OF reach resp res nofound iter]
  have "\<exists>st'. fetch_exhibitors ?g 0 ''ai'' 200 ''keyword'' ''exhibitor''
               = Some (Inr [name_only_example, booth_example], st')
             \<and> total st' = JNum 2 \<and> start st' = 2 \<and> length (sent st') = 2"
    by (simp add: h numeral_2_eq_2)
  with reach res nofound show ?thesis by blast
qed

text \<open>
  C10 as worded fails on a success whose section has no found count and \<^verbatim>\<open>null\<close> for
  its hit list: extending the accumulated list raises TypeError before the total is read.
\<close>

theorem missing_found_ends_counterexample:
  "find_result ''exhibitor'' null_hit_payload = Inr (JObj [(''hit'', JNull)])
   \<and> map_of [(''hit'', JNull)] ''found'' = None
   \<and> fetch_exhibitors (scripted_server [Body null_hit_payload]) 0 ''ai'' 200 ''keyword''
         ''exhibitor''
       = Some (Inl TypeError,
               \<lparr>server = 1, sent = [search_params ''ai'' 200 ''keyword'' ''exhibitor'' 0],
                hits = [], start = 0, total = JNull, batch = JNull\<rparr>)"
proof -
  have "fetch_exhibitors (scripted_server [Body null_hit_payload]) 0 ''ai'' 200 ''keyword''
         ''exhibitor''
       = Some (Inl TypeError,
               \<lparr>server = 1, sent = [search_params ''ai'' 200 ''keyword'' ''exhibitor'' 0],
                hits = [], start = 0, total = JNull, batch = JNull\<rparr>)"
    unfolding fetch_exhibitors_def
    by (rule while_true_Stop) (simp add: run_defs null_hit_payload_def initial_state_def)
  then show ?thesis
    by (simp add: find_result_def null_hit_payload_def)
qed

section \<open>Failures\<close>

lemma fetch_step_raises:
  assumes "fst (g (server st) (search_params kw ps ty sh (start st))) = Body payload"
    and "find_result sh payload = Inl e"
  shows "\<exists>st'. fetch_step g kw ps ty sh st = Stop (Inl e) st'"
  using assms unfolding fetch_step_def Let_def by simp

lemma main_fetch_error:
  assumes "read_keyword p a = Inr kw" "kw \<noteq> []" "bootstrap_session p (remote w) = (True, s)"
    and "fetch_exhibitors (session_get p) s kw (arg_page_size a) ''keyword'' (arg_show a)
           = Some (Inl e, st')"
  shows "main p a w = Some (Inl e, w\<lparr>remote := server st'\<rparr>)"
  using assms unfolding main_def Let_def by simp

text \<open>
  C6. Whenever a search response of a run has a false success flag (a body that is a
  dictionary whose \<open>SUCCESS\<close> entry is falsy or absent), \<open>fetch_exhibitors\<close> raises the
  error that carries the payload, after the request that was answered so and without
  another one; it returns no records, whatever it had accumulated, and \<open>main\<close> ends with
  that error and leaves every file as it was.
\<close>

theorem failed_search_is_fatal:
  assumes "read_keyword p a = Inr kw" and "kw \<noteq> []"
    and "bootstrap_session p (remote w) = (True, s)"
    and "after_pages (fetch_step (session_get p) kw (arg_page_size a) ''keyword'' (arg_show a)) n
           (initial_state s) = Some st"
    and "fst (session_get p (server st)
               (search_params kw (arg_page_size a) ''keyword'' (arg_show a) (start st)))
           = Body (JObj kvs)"
    and "\<not> truthy (case map_of kvs ''SUCCESS'' of None \<Rightarrow> JNull | Some v \<Rightarrow> v)"
  shows "(\<exists>st'. fetch_exhibitors (session_get p) s kw (arg_page_size a) ''keyword'' (arg_show a)
                   = Some (Inl (RuntimeError (JObj kvs)), st')
                \<and> length (sent st') = Suc n)
         \<and> (\<exists>w'. main p a w = Some (Inl (RuntimeError (JObj kvs)), w') \<and> files w' = files w)"
proof -
  have "find_result (arg_show a) (JObj kvs) = Inl (RuntimeError (JObj kvs))"
    using assms(6) by (simp add: find_result_def)
  from fetch_step_raises[where g = "session_get p" and st = st, OF assms(5) this] obtain st' where
    "fetch_step (session_get p) kw (arg_page_size a) ''keyword'' (arg_show a) st
       = Stop (Inl (RuntimeError (JObj kvs))) st'"
    by blast
  note run = run_stops[OF assms(4) this]
  from main_fetch_error[OF assms(1-3) run(1)] run show ?thesis by simp
qed

theorem failed_search_is_fatal_witness:
  "read_keyword (example_platform [Body first_of_five, Body refusal_payload]) example_args
     = Inr ''ai''
   \<and> bootstrap_session (example_platform [Body first_of_five, Body refusal_payload]) (remote example_world)
       = (True, 0)
   \<and> after_pages (fetch_step (scripted_server [Body first_of_five, Body refusal_payload])
         ''ai'' 200 ''keyword'' ''exhibitor'') 1 (initial_state 0)
       = Some scripted_second
   \<and> (\<exists>st'. fetch_exhibitors (scripted_server [Body first_of_five, Body refusal_payload]) 0
               ''ai'' 200 ''keyword'' ''exhibitor'' = Some (Inl (RuntimeError refusal_payload), st')
             \<and> length (sent st') = 2)
   \<and> (\<exists>w'. main (example_platform [Body first_of_five, Body refusal_payload]) example_args
               example_world = Some (Inl (RuntimeError refusal_payload), w')
            \<and> files w' = files example_world)"
proof -
  let ?p = "example_platform [Body first_of_five, Body refusal_payload]"
  have g: "session_get ?p = scripted_server [Body first_of_five, Body refusal_payload]"
    "arg_page_size example_args = 200" "arg_show example_args = ''exhibitor''"
    by (simp_all add: example_platform_def example_args_def DEFAULT_PAGE_SIZE_def)
  have kw: "read_keyword ?p example_args = Inr ''ai''" "''ai'' \<noteq> []"
    by (simp_all add: read_keyword_def example_args_def DEFAULT_PAGE_SIZE_def)
  have pr: "bootstrap_session ?p (remote example_world) = (True, 0)"
    by (simp add: example_platform_def example_world_def)
  note reach = scripted_first_page[of "Body refusal_payload"]
  have reach': "after_pages (fetch_step (session_get ?p) ''ai'' (arg_page_size example_args)
       ''keyword'' (arg_show example_args)) 1 (initial_state 0) = Some scripted_second"
    unfolding g by (rule reach)
  have resp: "fst (session_get ?p (server scripted_second)
                (search_params ''ai'' (arg_page_size example_args) ''keyword''
                   (arg_show example_args) (start scripted_second)))
              = Body (JObj [(''SUCCESS'', JBool False), (''MESSAGE'', JStr ''busy'')])"
    unfolding g by (simp add: scripted_server_def refusal_payload_def scripted_second_def)
  have flag: "\<not> truthy (case map_of [(''SUCCESS'', JBool False), (''MESSAGE'', JStr ''busy'')]
                 ''SUCCESS'' of None \<Rightarrow> JNull | Some v \<Rightarrow> v)"
    by simp
  from failed_search_is_fatal[where p = ?p and a = example_args and w = example_world
      and st = scripted_second, OF kw pr reach' resp flag]
  have "(\<exists>st'. fetch_exhibitors (scripted_server [Body first_of_five, Body refusal_payload]) 0
               ''ai'' 200 ''keyword'' ''exhibitor'' = Some (Inl (RuntimeError refusal_payload), st')
             \<and> length (sent st') = 2)
        \<and> (\<exists>w'. main ?p example_args example_world = Some (Inl (RuntimeError refusal_payload), w')
            \<and> files w' = files example_world)"
    unfolding g refusal_payload_def[symmetric] by (simp add: numeral_2_eq_2)
  with kw(1) pr reach show ?thesis by blast
qed

text \<open>
  C9, as the code has it. In a state that the loop reaches, on a body that is a dictionary
  with a truthy success flag: a missing \<open>DATA\<close> entry, a missing \<open>results\<close> entry in
  the data and a missing section in the results each end the run with a KeyError that names
  the missing key and does not carry the payload. A section that lacks the hit list or
  the found count raises nothing: without the hit list the page is empty and the run
  returns what it has accumulated, if the found count is absent or an integer; without the
  found count the run returns what it has accumulated with the page.
\<close>

theorem missing_structure:
  assumes "after_pages (fetch_step g kw ps ty sh) n (initial_state s) = Some st"
    and "fst (g (server st) (search_params kw ps ty sh (start st))) = Body (JObj kvs)"
    and "truthy (case map_of kvs ''SUCCESS'' of None \<Rightarrow> JNull | Some v \<Rightarrow> v)"
  shows "(map_of kvs ''DATA'' = None \<longrightarrow>
            (\<exists>st'. fetch_exhibitors g s kw ps ty sh = Some (Inl (KeyError ''DATA''), st')))
         \<and> (map_of kvs ''DATA'' = Some (JObj d) \<and> map_of d ''results'' = None \<longrightarrow>
            (\<exists>st'. fetch_exhibitors g s kw ps ty sh = Some (Inl (KeyError ''results''), st')))
         \<and> (map_of kvs ''DATA'' = Some (JObj d) \<and> map_of d ''results'' = Some (JObj r)
              \<and> map_of r sh = None \<longrightarrow>
            (\<exists>st'. fetch_exhibitors g s kw ps ty sh = Some (Inl (KeyError sh), st')))
         \<and> (map_of kvs ''DATA'' = Some (JObj d) \<and> map_of d ''results'' = Some (JObj r)
              \<and> map_of r sh = Some (JObj x) \<and> map_of x ''hit'' = None
              \<and> (case map_of x ''found'' of None \<Rightarrow> True | Some t \<Rightarrow> int_value t \<noteq> None) \<longrightarrow>
            (\<exists>st'. fetch_exhibitors g s kw ps ty sh = Some (Inr (hits st), st')))
         \<and> (map_of kvs ''DATA'' = Some (JObj d) \<and> map_of d ''results'' = Some (JObj r)
              \<and> map_of r sh = Some (JObj x) \<and> map_of x ''found'' = None
              \<and> py_iter (case map_of x ''hit'' of None \<Rightarrow> JArr [] | Some b \<Rightarrow> b) = Inr items \<longrightarrow>
            (\<exists>st'. fetch_exhibitors g s kw ps ty sh = Some (Inr (hits st @ items), st')))"
proof -
  have raises: "\<exists>st'. fetch_exhibitors g s kw ps ty sh = Some (Inl e, st')"
    if "find_result sh (JObj kvs) = Inl e" for e
    using fetch_step_raises[where g = g and st = st, OF assms(2) that] run_stops(1)[OF assms(1)]
    by blast
  have returns: "\<exists>st'. fetch_exhibitors g s kw ps ty sh = Some (Inr (hits st @ is), st')"
    if "page_at g kw ps ty sh st = Some (is, m)" "start st + int (length is) \<ge> m \<or> is = []"
    for "is" m
  proof -
    from fetch_step_page[OF that(1)] that(2) obtain st2 where
      "fetch_step g kw ps ty sh st = Stop (Inr (hits st @ is)) st2"
      by auto
    from run_stops(1)[OF assms(1) this] show ?thesis by blast
  qed
  have inv: "start st = int (length (hits st))"
    by (rule run_invariant[OF assms(1)])
  have a: "\<exists>st'. fetch_exhibitors g s kw ps ty sh = Some (Inl (KeyError ''DATA''), st')"
    if "map_of kvs ''DATA'' = None"
    by (rule raises) (use assms(3) that in \<open>simp add: find_result_def\<close>)
  have b: "\<exists>st'. fetch_exhibitors g s kw ps ty sh = Some (Inl (KeyError ''results''), st')"
    if "map_of kvs ''DATA'' = Some (JObj d)" "map_of d ''results'' = None"
    by (rule raises) (use assms(3) that in \<open>simp add: find_result_def\<close>)
  have c: "\<exists>st'. fetch_exhibitors g s kw ps ty sh = Some (Inl (KeyError sh), st')"
    if "map_of kvs ''DATA'' = Some (JObj d)" "map_of d ''results'' = Some (JObj r)"
      "map_of r sh = None"
    by (rule raises) (use assms(3) that in \<open>simp add: find_result_def\<close>)
  have found: "find_result sh (JObj kvs) = Inr (JObj x)"
    if "map_of kvs ''DATA'' = Some (JObj d)" "map_of d ''results'' = Some (JObj r)"
      "map_of r sh = Some (JObj x)"
    using assms(3) that by (simp add: find_result_def)
  have d: "\<exists>st'. fetch_exhibitors g s kw ps ty sh = Some (Inr (hits st), st')"
    if "map_of kvs ''DATA'' = Some (JObj d)" "map_of d ''results'' = Some (JObj r)"
      "map_of r sh = Some (JObj x)" "map_of x ''hit'' = None"
      "case map_of x ''found'' of None \<Rightarrow> True | Some t \<Rightarrow> int_value t \<noteq> None"
  proof -
    have "\<exists>m. page_at g kw ps ty sh st = Some ([], m)"
      unfolding page_at_def using assms(2) found[OF that(1-3)] that(4,5)
      by (auto split: option.splits)
    then show ?thesis using returns[of "[]"] by auto
  qed
  have e: "\<exists>st'. fetch_exhibitors g s kw ps ty sh = Some (Inr (hits st @ items), st')"
    if "map_of kvs ''DATA'' = Some (JObj d)" "map_of d ''results'' = Some (JObj r)"
      "map_of r sh = Some (JObj x)" "map_of x ''found'' = None"
      "py_iter (case map_of x ''hit'' of None \<Rightarrow> JArr [] | Some b \<Rightarrow> b) = Inr items"
  proof -
    have "page_at g kw ps ty sh st = Some (items, int (length (hits st @ items)))"
      unfolding page_at_def using assms(2) found[OF that(1-3)] that(4,5) by simp
    then show ?thesis using returns inv by simp
  qed
  from a b c d e show ?thesis by blast
qed

lemma no_data_start:
  "after_pages (fetch_step (scripted_server [Body no_data_payload]) ''ai'' 200 ''keyword''
       ''exhibitor'') 0 (initial_state 0) = Some (initial_state 0)"
  by simp

theorem missing_structure_witness:
  "after_pages (fetch_step (scripted_server [Body no_data_payload]) ''ai'' 200 ''keyword''
       ''exhibitor'') 0 (initial_state 0) = Some (initial_state 0)
   \<and> fst (scripted_server [Body no_data_payload] (server (initial_state 0))
           (search_params ''ai'' 200 ''keyword'' ''exhibitor'' (start (initial_state 0))))
       = Body (JObj [(''SUCCESS'', JBool True)])
   \<and> map_of [(''SUCCESS'', JBool True)] ''DATA'' = None
   \<and> (\<exists>st'. fetch_exhibitors (scripted_server [Body no_data_payload]) 0 ''ai'' 200 ''keyword''
               ''exhibitor'' = Some (Inl (KeyError ''DATA''), st'))"
proof -
  let ?g = "scripted_server [Body no_data_payload]"
  have resp: "fst (?g (server (initial_state 0))
           (search_params ''ai'' 200 ''keyword'' ''exhibitor'' (start (initial_state 0))))
       = Body (JObj [(''SUCCESS'', JBool True)])"
    by (simp add: scripted_server_def initial_state_def no_data_payload_def)
  have flag: "truthy (case map_of [(''SUCCESS'', JBool True)] ''SUCCESS'' of
                        None \<Rightarrow> JNull | Some v \<Rightarrow> v)"
    by simp
  have absent: "map_of [(''SUCCESS'', JBool True)] ''DATA'' = None"
    by simp
  from missing_structure[where g = ?g and st = "initial_state 0",
      OF no_data_start resp flag, THEN conjunct1, THEN mp, OF absent]
  have "\<exists>st'. fetch_exhibitors ?g 0 ''ai'' 200 ''keyword'' ''exhibitor''
                 = Some (Inl (KeyError ''DATA''), st')" .
  with no_data_start resp absent show ?thesis by blast
qed

text \<open>
  C9 as worded fails on a success whose results section has neither a hit list nor a found
  count: the run ends without error with no records, and the program writes its file.
\<close>

theorem missing_structure_counterexample:
  "fetch_exhibitors (scripted_server [Body bare_payload]) 0 ''ai'' 200 ''keyword'' ''exhibitor''
     = Some (Inr [],
             \<lparr>server = 1, sent = [search_params ''ai'' 200 ''keyword'' ''exhibitor'' 0],
              hits = [], start = 0, total = JNum 0, batch = JArr []\<rparr>)
   \<and> main (example_platform [Body bare_payload]) example_args example_world
       = Some (Inr (), example_world\<lparr>remote := 1,
                 files := (files example_world)(''exhibitors_ai.csv'' \<mapsto> (fieldnames, []))\<rparr>)"
proof -
  have run: "fetch_exhibitors (scripted_server [Body bare_payload]) 0 ''ai'' 200 ''keyword''
      ''exhibitor''
     = Some (Inr [],
             \<lparr>server = 1, sent = [search_params ''ai'' 200 ''keyword'' ''exhibitor'' 0],
              hits = [], start = 0, total = JNum 0, batch = JArr []\<rparr>)"
    unfolding fetch_exhibitors_def
    by (rule while_true_Stop) (simp add: run_defs bare_payload_def initial_state_def)
  then have "main (example_platform [Body bare_payload]) example_args example_world
       = Some (Inr (), example_world\<lparr>remote := 1,
                 files := (files example_world)(''exhibitors_ai.csv'' \<mapsto> (fieldnames, []))\<rparr>)"
    by (simp add: main_def read_keyword_def output_path_of_def write_csv_def Let_def
        example_platform_def example_args_def DEFAULT_PAGE_SIZE_def example_world_def)
  with run show ?thesis by (rule conjI)
qed

section \<open>A well-behaved server\<close>

lemma well_behaved_page:
  assumes "well_behaved g kw ps ty sh db"
    and "start st = int k"
  shows "page_at g kw ps ty sh st = Some (take (nat ps) (drop k db), int (length db))"
proof -
  have "fst (g (server st) (search_params kw ps ty sh (start st)))
          = Body (page_payload db (int (length db)) sh ps (start st))"
    using assms(1) unfolding well_behaved_def by blast
  then show ?thesis
    unfolding page_at_def using assms(2)
    by (simp add: page_payload_def find_result_def)
qed

lemma pages_needed_one: "0 < n \<Longrightarrow> n \<le> p \<Longrightarrow> pages_needed n p = 1"
  unfolding pages_needed_def by (simp add: div_eq_dividend_iff div_nat_eqI)

lemma pages_needed_more: "0 < p \<Longrightarrow> p < n \<Longrightarrow> pages_needed n p = Suc (pages_needed (n - p) p)"
proof -
  assume p: "0 < p" "p < n"
  then have "n + p - 1 = (n - p + p - 1) + p" by simp
  then have "(n + p - 1) div p = (n - p + p - 1) div p + 1"
    using p by (metis div_add_self2 less_numeral_extra(3))
  then show ?thesis by (simp add: pages_needed_def)
qed

lemma well_behaved_run:
  assumes ps: "0 < ps"
    and wb: "well_behaved g kw ps ty sh db"
  shows "k < length db \<Longrightarrow> start st = int k \<Longrightarrow> hits st = take k db \<Longrightarrow>
         \<exists>st'. while_true (fetch_step g kw ps ty sh) st = Some (Inr db, st')
           \<and> sent st' = sent st @ map (\<lambda>j. search_params kw ps ty sh (int k + int j * ps))
                                     [0..<pages_needed (length db - k) (nat ps)]"
proof (induction "length db - k" arbitrary: k st rule: less_induct)
  case less
  let ?items = "take (nat ps) (drop k db)"
  have len: "length ?items = min (nat ps) (length db - k)" by simp
  have nonempty: "?items \<noteq> []" using less.prems(1) ps by simp
  from fetch_step_page[OF well_behaved_page[OF wb less.prems(2)]] obtain st2 where
    h: "hits st2 = hits st @ ?items" and o: "start st2 = start st + int (length ?items)"
    and snt: "sent st2 = sent st @ [search_params kw ps ty sh (start st)]"
    and step: "fetch_step g kw ps ty sh st =
      (if start st + int (length ?items) \<ge> int (length db) \<or> ?items = []
       then Stop (Inr (hits st @ ?items)) st2 else Next st2)"
    by blast
  show ?case
  proof (cases "length db - k \<le> nat ps")
    case True
    then have all: "hits st @ ?items = db"
      using less.prems(3) by simp
    have "start st + int (length ?items) \<ge> int (length db)"
      using True less.prems(1,2) by (simp add: min_def)
    then have "fetch_step g kw ps ty sh st = Stop (Inr db) st2"
      using step all by simp
    then have "while_true (fetch_step g kw ps ty sh) st = Some (Inr db, st2)"
      by (rule while_true_Stop[of "fetch_step g kw ps ty sh" st])
    moreover have "pages_needed (length db - k) (nat ps) = 1"
      using True less.prems(1) by (simp add: pages_needed_one)
    ultimately show ?thesis using snt less.prems(2) by simp
  next
    case False
    then have more: "nat ps < length db - k" by simp
    have l: "length ?items = nat ps" using more by simp
    have "\<not> (start st + int (length ?items) \<ge> int (length db) \<or> ?items = [])"
      using more less.prems(2) nonempty l ps by simp
    then have nxt: "fetch_step g kw ps ty sh st = Next st2"
      using step by simp
    have k2: "k + nat ps < length db" using more by simp
    have o2: "start st2 = int (k + nat ps)"
      using o l less.prems(2) by simp
    have h2: "hits st2 = take (k + nat ps) db"
      using h less.prems(3) by (simp add: take_add)
    have "length db - (k + nat ps) < length db - k"
      using more ps by simp
    from less.hyps[OF this k2 o2 h2] obtain st' where
      run: "while_true (fetch_step g kw ps ty sh) st2 = Some (Inr db, st')"
      and snt': "sent st' = sent st2 @ map (\<lambda>j. search_params kw ps ty sh (int (k + nat ps) + int j * ps))
                                     [0..<pages_needed (length db - (k + nat ps)) (nat ps)]"
      by blast
    have cnt: "pages_needed (length db - k) (nat ps)
                 = Suc (pages_needed (length db - (k + nat ps)) (nat ps))"
      using pages_needed_more[of "nat ps" "length db - k"] more ps by simp
    have shift: "int (k + nat ps) + int j * ps = int k + int (Suc j) * ps" for j
      using ps by (simp add: algebra_simps)
    have "while_true (fetch_step g kw ps ty sh) st = Some (Inr db, st')"
      using while_true_Next[of "fetch_step g kw ps ty sh" st, OF nxt] run by simp
    moreover have "sent st' = sent st @ map (\<lambda>j. search_params kw ps ty sh (int k + int j * ps))
                                     [0..<pages_needed (length db - k) (nat ps)]"
      unfolding cnt snt' snt map_upt_Suc shift using less.prems(2) by simp
    ultimately show ?thesis by blast
  qed
qed

text \<open>
  C4, as the code has it. For every server that answers each request with the records
  that it holds from the requested offset on, at most a page of them, and with their
  number as the found count, and for every positive page size, \<open>fetch_exhibitors\<close> returns
  exactly the records that the server holds, after exactly one request for each page of
  them, at the offsets 0, page size, twice the page size and so on; that is the number of
  records divided by the page size, rounded up. For a server that holds no records it is
  one request, not none: the loop asks before it knows the count.
\<close>

theorem well_behaved_pagination:
  assumes "0 < ps"
    and "well_behaved g kw ps ty sh db"
  shows "\<exists>st'. fetch_exhibitors g s kw ps ty sh = Some (Inr db, st')
           \<and> length (sent st') = (if db = [] then 1 else pages_needed (length db) (nat ps))
           \<and> map requested_start (sent st') = map (\<lambda>j. int j * ps) [0..<length (sent st')]"
proof (cases "db = []")
  case True
  have "page_at g kw ps ty sh (initial_state s) = Some (take (nat ps) (drop 0 db), int (length db))"
    by (rule well_behaved_page[OF assms(2)]) (simp add: initial_state_simps)
  then have "page_at g kw ps ty sh (initial_state s) = Some ([], 0)"
    using True by simp
  from fetch_step_page[OF this] obtain st2 where
    snt: "sent st2 = sent (initial_state s) @ [search_params kw ps ty sh (start (initial_state s))]"
    and step: "fetch_step g kw ps ty sh (initial_state s) = Stop (Inr (hits (initial_state s))) st2"
    by auto
  have "fetch_exhibitors g s kw ps ty sh = Some (Inr db, st2)"
    unfolding fetch_exhibitors_def
    using while_true_Stop[of "fetch_step g kw ps ty sh" "initial_state s", OF step] True
    by (simp add: initial_state_simps)
  moreover have "sent st2 = [search_params kw ps ty sh 0]"
    using snt by (simp add: initial_state_simps)
  ultimately show ?thesis using True
    by (simp add: requested_start_def search_params_def)
next
  case False
  then have "0 < length db" by simp
  from well_behaved_run[OF assms this, of "initial_state s"] obtain st' where
    run: "while_true (fetch_step g kw ps ty sh) (initial_state s) = Some (Inr db, st')"
    and snt: "sent st' = map (\<lambda>j. search_params kw ps ty sh (int j * ps))
                           [0..<pages_needed (length db) (nat ps)]"
    by (auto simp: initial_state_simps)
  have "requested_start (search_params kw ps ty sh off) = off" for off
    by (simp add: requested_start_def search_params_def)
  then have "map requested_start (sent st') = map (\<lambda>j. int j * ps) [0..<length (sent st')]"
    unfolding snt by (simp add: comp_def)
  then show ?thesis using run snt False by (simp add: fetch_exhibitors_def)
qed

lemma three_server_well_behaved:
  "well_behaved three_server ''ai'' 2 ''keyword'' ''exhibitor''
     [name_only_example, booth_example, marker_only_example]"
  unfolding well_behaved_def three_server_def paging_server_def requested_start_def
    requested_size_def search_params_def
  by simp

theorem well_behaved_pagination_witness:
  "(0::int) < 2
   \<and> well_behaved three_server ''ai'' 2 ''keyword'' ''exhibitor''
        [name_only_example, booth_example, marker_only_example]
   \<and> (\<exists>st'. fetch_exhibitors three_server () ''ai'' 2 ''keyword'' ''exhibitor''
               = Some (Inr [name_only_example, booth_example, marker_only_example], st')
             \<and> length (sent st') = 2
             \<and> map requested_start (sent st') = [0, 2])"
proof -
  have p: "(0::int) < 2" by simp
  have n: "pages_needed (length [name_only_example, booth_example, marker_only_example]) (nat 2) = 2"
    by (simp add: pages_needed_def)
  have u: "[0..<2] = [0, 1]"
    by (simp add: numeral_2_eq_2)
  from well_behaved_pagination[OF p three_server_well_behaved, of "()"]
  have "\<exists>st'. fetch_exhibitors three_server () ''ai'' 2 ''keyword'' ''exhibitor''
               = Some (Inr [name_only_example, booth_example, marker_only_example], st')
             \<and> length (sent st') = 2
             \<and> map requested_start (sent st') = [0, 2]"
    unfolding n by (auto simp: u)
  with p three_server_well_behaved show ?thesis by blast
qed

text \<open>
  C4 as worded fails for a server that holds no records: the run sends one request, where
  no records divided by the page size, rounded up, is no request.
\<close>

theorem well_behaved_pagination_counterexample:
  "well_behaved empty_server ''ai'' 200 ''keyword'' ''exhibitor'' []
   \<and> fetch_exhibitors empty_server () ''ai'' 200 ''keyword'' ''exhibitor''
       = Some (Inr [],
               \<lparr>server = (), sent = [search_params ''ai'' 200 ''keyword'' ''exhibitor'' 0],
                hits = [], start = 0, total = JNum 0, batch = JArr []\<rparr>)
   \<and> length [search_params ''ai'' 200 ''keyword'' ''exhibitor'' 0] = 1
   \<and> pages_needed (length ([] :: json list)) (nat 200) = 0"
proof -
  have wb: "well_behaved empty_server ''ai'' 200 ''keyword'' ''exhibitor'' []"
    unfolding well_behaved_def empty_server_def paging_server_def requested_start_def
      requested_size_def search_params_def
    by simp
  have run: "fetch_exhibitors empty_server () ''ai'' 200 ''keyword'' ''exhibitor''
       = Some (Inr [],
               \<lparr>server = (), sent = [search_params ''ai'' 200 ''keyword'' ''exhibitor'' 0],
                hits = [], start = 0, total = JNum 0, batch = JArr []\<rparr>)"
    unfolding fetch_exhibitors_def
    by (rule while_true_Stop) (simp add: run_defs empty_server_def initial_state_def)
  have "pages_needed (length ([] :: json list)) (nat 200) = 0"
    by (simp add: pages_needed_def)
  with wb run show ?thesis by simp
qed

end
